theory Spec2Isabelle
  imports Main "HOL-Library.AList"
begin

section \<open>Machine integers\<close>

text \<open>
  Go's \<open>int\<close> (64 bits on the platforms bolt supports) and \<open>int64\<close> are modelled as
  \<open>int\<close>, with the two's complement wrap-around written out at every arithmetic
  operation that can leave the range. \<open>wrap64\<close> is also the conversion \<open>int(u)\<close> of a
  \<open>uint64\<close>; \<open>wrapU64\<close> is arithmetic on \<open>uint64\<close>.
\<close>

definition wrap64 :: "int \<Rightarrow> int" where
  "wrap64 x = (x + 2 ^ 63) mod 2 ^ 64 - 2 ^ 63"

definition wrapU64 :: "int \<Rightarrow> int" where
  "wrapU64 x = x mod 2 ^ 64"

section \<open>Schema\<close>

text \<open>The four struct types of boltbench.go. \<open>Mtime\<close> is the instant read from the clock.\<close>

record Account =
  AID :: int
  BID :: int
  Abalance :: int
  Filler :: string

record Teller =
  TID :: int
  BID :: int
  Tbalance :: int
  Filler :: string

record Branche =
  BID :: int
  Bbalance :: int
  Filler :: string

record History =
  TID :: int
  BID :: int
  AID :: int
  Delta :: int
  Mtime :: int
  Filler :: string

text \<open>A value of type \<open>interface{}\<close>, as \<open>genfunc\<close> returns it and \<open>valueFor\<close> takes it.\<close>

datatype go_value = VAccount Account | VTeller Teller | VBranche Branche | VHistory History

text \<open>
  A panic ends the process. \<open>Panic msg\<close> is an explicit \<open>panic(msg)\<close> of the program or
  of the random number library, \<open>NilPointer\<close> the use of a bucket that
  \<open>txn.Bucket\<close> did not find, \<open>JsonError\<close> the panic of \<open>valueFor\<close> or of
  \<open>lo.Must0(json.Unmarshal ...)\<close>.
\<close>

datatype panic = Panic string | NilPointer | JsonError

definition andThen :: "panic + 'a \<Rightarrow> ('a \<Rightarrow> panic + 'b) \<Rightarrow> panic + 'b" where
  "andThen r f = (case r of Inl p \<Rightarrow> Inl p | Inr x \<Rightarrow> f x)"

definition accountPrefix :: string where "accountPrefix = ''accounts:''"
definition tellerPrefix :: string where "tellerPrefix = ''tellers:''"
definition branchPrefix :: string where "branchPrefix = ''branches:''"
definition historyPrefix :: string where "historyPrefix = ''history:''"

section \<open>Keys and values\<close>

text \<open>
  \<open>strconv.Itoa\<close>: the decimal digits of the number, most significant first, after a
  minus sign when it is negative.
\<close>

fun udigits :: "nat \<Rightarrow> string" where
  "udigits n = (if n < 10 then [''0123456789'' ! n]
                else udigits (n div 10) @ [''0123456789'' ! (n mod 10)])"

declare udigits.simps [simp del]

definition Itoa :: "int \<Rightarrow> string" where
  "Itoa i = (if i < 0 then CHR ''-'' # udigits (nat (- i)) else udigits (nat i))"

definition keyFor :: "int \<Rightarrow> string" where
  "keyFor ident = Itoa ident"

text \<open>
  \<open>encoding/json\<close> is a library outside the repository: the program is modelled over
  any codec \<open>J\<close>. \<open>Marshal J v = None\<close> is an error of \<open>json.Marshal\<close>;
  \<open>UnmarshalAccount J bs\<close> is \<open>json.Unmarshal(bs, &acc)\<close> into a zero \<open>Account\<close>,
  \<open>None\<close> being its error.
\<close>

record json =
  Marshal :: "go_value \<Rightarrow> string option"
  UnmarshalAccount :: "string \<Rightarrow> Account option"
  UnmarshalTeller :: "string \<Rightarrow> Teller option"
  UnmarshalBranche :: "string \<Rightarrow> Branche option"

definition valueFor :: "json \<Rightarrow> go_value \<Rightarrow> panic + string" where
  "valueFor J val = (case Marshal J val of None \<Rightarrow> Inl JsonError | Some rv \<Rightarrow> Inr rv)"

section \<open>The store\<close>

text \<open>
  A bolt bucket: its key/value pairs and its sequence counter (a \<open>uint64\<close>). The pairs
  are kept as an association list; the program observes a bucket through \<open>Get\<close> and
  through the number of keys a cursor visits, so the order of the list plays no role.
  A database maps bucket names to buckets; inside a transaction a \<open>*bolt.Bucket\<close> is
  the name it was looked up under, and using a bucket that does not exist is the nil
  pointer panic. The program discards the error result of \<open>Put\<close>; in a read-write
  transaction bolt refuses a \<open>Put\<close> only for an empty or oversized key or value, and
  the keys put here are decimal numbers. No bucket of the program holds a nested
  bucket, so \<open>Get\<close> returns nil exactly for an absent key.
\<close>

record bucket =
  entries :: "(string \<times> string) list"
  sequence :: int

type_synonym db = "string \<Rightarrow> bucket option"

definition Bucket_Get :: "db \<Rightarrow> string \<Rightarrow> string \<Rightarrow> panic + string option" where
  "Bucket_Get txn name key =
     (case txn name of None \<Rightarrow> Inl NilPointer
      | Some b \<Rightarrow> Inr (map_of (entries b) key))"

definition Bucket_Put :: "db \<Rightarrow> string \<Rightarrow> string \<Rightarrow> string \<Rightarrow> panic + db" where
  "Bucket_Put txn name key val =
     (case txn name of None \<Rightarrow> Inl NilPointer
      | Some b \<Rightarrow> Inr (txn(name \<mapsto> b\<lparr>entries := AList.update key val (entries b)\<rparr>)))"

definition Bucket_NextSequence :: "db \<Rightarrow> string \<Rightarrow> panic + (int \<times> db)" where
  "Bucket_NextSequence txn name =
     (case txn name of None \<Rightarrow> Inl NilPointer
      | Some b \<Rightarrow> (let s = wrapU64 (sequence b + 1)
                   in Inr (s, txn(name \<mapsto> b\<lparr>sequence := s\<rparr>))))"

text \<open>
  \<open>db.View\<close> runs the function on the current state and rolls the transaction back;
  \<open>db.Update\<close> commits what the function leaves (every function of this program
  returns a nil error). A panic inside either leaves the database as it was.
\<close>

definition View :: "db \<Rightarrow> (db \<Rightarrow> panic + ('a \<times> db)) \<Rightarrow> panic + ('a \<times> db)" where
  "View d fn = (case fn d of Inl p \<Rightarrow> Inl p | Inr (r, txn) \<Rightarrow> Inr (r, d))"

definition Update :: "db \<Rightarrow> (db \<Rightarrow> panic + ('a \<times> db)) \<Rightarrow> panic + ('a \<times> db)" where
  "Update d fn = (case fn d of Inl p \<Rightarrow> Inl p | Inr (r, txn) \<Rightarrow> Inr (r, txn))"

section \<open>Seeding\<close>

text \<open>
  The cursor loop of \<open>fillTable\<close>: one increment of \<open>created\<close> for every key. A
  bucket holds fewer than \<open>2 ^ 63\<close> keys, so this count stays in the range of \<open>int\<close>.
\<close>

definition countKeys :: "db \<Rightarrow> string \<Rightarrow> panic + (int \<times> db)" where
  "countKeys txn prefix =
     (case txn prefix of None \<Rightarrow> Inl NilPointer
      | Some b \<Rightarrow> Inr (fold (\<lambda>kv created. created + 1) (entries b) 0, txn))"

text \<open>
  The inner loop of a batch, \<open>for it := created; it < limit && it-created < 1000; it++\<close>.
  Neither \<open>it++\<close> nor \<open>it-created\<close> can leave the range of \<open>int\<close> here.
\<close>

function fillBatch ::
  "json \<Rightarrow> string \<Rightarrow> (int \<Rightarrow> go_value) \<Rightarrow> int \<Rightarrow> int \<Rightarrow> int \<Rightarrow> db \<Rightarrow> panic + db" where
  "fillBatch J prefix genfunc limit created it txn =
     (if it < limit \<and> it - created < 1000
      then andThen (valueFor J (genfunc it)) (\<lambda>v.
           andThen (Bucket_Put txn prefix (keyFor it) v) (\<lambda>txn'.
           fillBatch J prefix genfunc limit created (it + 1) txn'))
      else Inr txn)"
  by pat_completeness auto
termination
  by (relation "measure (\<lambda>(J, prefix, genfunc, limit, created, it, txn). nat (limit - it))") auto

declare fillBatch.simps [simp del]

text \<open>
  The outer loop, \<open>for created < limit\<close>: one read-write transaction per batch, after
  which \<open>created += 1000\<close>. The addition wraps around in Go, and then the loop need not
  end, so the loop is a partial function: \<open>None\<close> is a run that never returns.
\<close>

partial_function (option) fillLoop ::
  "json \<Rightarrow> string \<Rightarrow> (int \<Rightarrow> go_value) \<Rightarrow> int \<Rightarrow> int \<Rightarrow> db \<Rightarrow> (panic + db) option" where
  "fillLoop J prefix genfunc limit created d =
     (if created < limit
      then (case Update d (\<lambda>txn.
                   andThen (fillBatch J prefix genfunc limit created created txn) (\<lambda>txn'.
                   Inr (wrap64 (created + 1000), txn')))
            of Inl p \<Rightarrow> Some (Inl p)
             | Inr (created', d') \<Rightarrow> fillLoop J prefix genfunc limit created' d')
      else Some (Inr d))"

definition fillTable ::
  "json \<Rightarrow> db \<Rightarrow> string \<Rightarrow> int \<Rightarrow> (int \<Rightarrow> go_value) \<Rightarrow> (panic + db) option" where
  "fillTable J d prefix limit genfunc =
     (case View d (\<lambda>txn. countKeys txn prefix) of
        Inl p \<Rightarrow> Some (Inl p)
      | Inr (created, d') \<Rightarrow> fillLoop J prefix genfunc limit created d')"

text \<open>The three generators of \<open>fill\<close>; the fields they leave out are zero.\<close>

definition genAccount :: "int \<Rightarrow> go_value" where
  "genAccount it =
     VAccount \<lparr>Account.AID = it, Account.BID = 0, Abalance = 0, Account.Filler = []\<rparr>"

definition genTeller :: "int \<Rightarrow> go_value" where
  "genTeller it =
     VTeller \<lparr>Teller.TID = it, Teller.BID = 0, Tbalance = 0, Teller.Filler = []\<rparr>"

definition genBranche :: "int \<Rightarrow> go_value" where
  "genBranche it = VBranche \<lparr>Branche.BID = it, Bbalance = 0, Branche.Filler = []\<rparr>"

definition fill :: "json \<Rightarrow> int \<Rightarrow> db \<Rightarrow> (panic + db) option" where
  "fill J scale d =
     (let accountsToCreate = wrap64 (scale * 100000);
          tellersToCreate = wrap64 (scale * 10);
          branchesToCreate = wrap64 (scale * 1)
      in case fillTable J d accountPrefix accountsToCreate genAccount of
           None \<Rightarrow> None
         | Some (Inl p) \<Rightarrow> Some (Inl p)
         | Some (Inr d1) \<Rightarrow>
             (case fillTable J d1 tellerPrefix tellersToCreate genTeller of
                None \<Rightarrow> None
              | Some (Inl p) \<Rightarrow> Some (Inl p)
              | Some (Inr d2) \<Rightarrow> fillTable J d2 branchPrefix branchesToCreate genBranche))"

section \<open>Transaction operations\<close>

text \<open>
  \<open>rand.IntN(n)\<close> and \<open>rand.Int64N(n)\<close> of \<open>math/rand/v2\<close>: a number of the half-open
  interval from 0 to \<open>n\<close>, and a panic when \<open>n\<close> is not positive. The second argument
  stands for the state of the generator, which the program does not control: every
  number of the interval is the result for some state.
\<close>

definition IntN :: "int \<Rightarrow> int \<Rightarrow> panic + int" where
  "IntN n r = (if n \<le> 0 then Inl (Panic ''invalid argument to IntN'') else Inr (r mod n))"

definition Int64N :: "int \<Rightarrow> int \<Rightarrow> panic + int" where
  "Int64N n r = (if n \<le> 0 then Inl (Panic ''invalid argument to Int64N'') else Inr (r mod n))"

text \<open>The four statements of the read-write transaction, in the order of the source.\<close>

definition updateAccount :: "json \<Rightarrow> int \<Rightarrow> int \<Rightarrow> db \<Rightarrow> panic + db" where
  "updateAccount J aid adelta txn =
     andThen (Bucket_Get txn accountPrefix (keyFor aid)) (\<lambda>accVal.
       case accVal of
         None \<Rightarrow> Inl (Panic ''account not found for key'')
       | Some bs \<Rightarrow>
           (case UnmarshalAccount J bs of
              None \<Rightarrow> Inl JsonError
            | Some acc \<Rightarrow>
                andThen (valueFor J (VAccount (acc\<lparr>Abalance := wrap64 (Abalance acc + adelta)\<rparr>)))
                  (\<lambda>v. Bucket_Put txn accountPrefix (keyFor aid) v)))"

definition updateTeller :: "json \<Rightarrow> int \<Rightarrow> int \<Rightarrow> db \<Rightarrow> panic + db" where
  "updateTeller J tid adelta txn =
     andThen (Bucket_Get txn tellerPrefix (keyFor tid)) (\<lambda>tellerVal.
       case tellerVal of
         None \<Rightarrow> Inl (Panic ''teller not found for key'')
       | Some bs \<Rightarrow>
           (case UnmarshalTeller J bs of
              None \<Rightarrow> Inl JsonError
            | Some teller \<Rightarrow>
                andThen (valueFor J (VTeller (teller\<lparr>Tbalance := wrap64 (Tbalance teller + adelta)\<rparr>)))
                  (\<lambda>v. Bucket_Put txn tellerPrefix (keyFor tid) v)))"

text \<open>The branch is read under \<open>keyFor(bid)\<close> and written under \<open>keyFor(tid)\<close> (line 167).\<close>

definition updateBranch :: "json \<Rightarrow> int \<Rightarrow> int \<Rightarrow> int \<Rightarrow> db \<Rightarrow> panic + db" where
  "updateBranch J tid bid adelta txn =
     andThen (Bucket_Get txn branchPrefix (keyFor bid)) (\<lambda>branchVal.
       case branchVal of
         None \<Rightarrow> Inl (Panic ''branch not found for key'')
       | Some bs \<Rightarrow>
           (case UnmarshalBranche J bs of
              None \<Rightarrow> Inl JsonError
            | Some branch \<Rightarrow>
                andThen (valueFor J (VBranche (branch\<lparr>Bbalance := wrap64 (Bbalance branch + adelta)\<rparr>)))
                  (\<lambda>v. Bucket_Put txn branchPrefix (keyFor tid) v)))"

text \<open>
  The sequence number is taken before the record is encoded, and \<open>int(...)\<close> converts
  it from \<open>uint64\<close>.
\<close>

definition insertHistory ::
  "json \<Rightarrow> int \<Rightarrow> int \<Rightarrow> int \<Rightarrow> int \<Rightarrow> int \<Rightarrow> db \<Rightarrow> panic + db" where
  "insertHistory J aid tid bid adelta now txn =
     andThen (Bucket_NextSequence txn historyPrefix) (\<lambda>(s, txn').
     andThen (valueFor J (VHistory \<lparr>History.TID = tid, History.BID = bid, History.AID = aid,
                                     Delta = adelta, Mtime = now, History.Filler = []\<rparr>)) (\<lambda>v.
     Bucket_Put txn' historyPrefix (keyFor (wrap64 s)) v))"

definition readWrite_txn ::
  "json \<Rightarrow> int \<Rightarrow> int \<Rightarrow> int \<Rightarrow> int \<Rightarrow> int \<Rightarrow> db \<Rightarrow> panic + (unit \<times> db)" where
  "readWrite_txn J aid tid bid adelta now txn =
     andThen (updateAccount J aid adelta txn) (\<lambda>txn1.
     andThen (updateTeller J tid adelta txn1) (\<lambda>txn2.
     andThen (updateBranch J tid bid adelta txn2) (\<lambda>txn3.
     andThen (insertHistory J aid tid bid adelta now txn3) (\<lambda>txn4.
     Inr ((), txn4)))))"

text \<open>
  The four draws of \<open>readWrite\<close>. \<open>rnd\<close> holds the generator's state at each of them;
  the products wrap around in \<open>int\<close>, and so does the subtraction in \<open>int64\<close>.
\<close>

definition readWrite_params ::
  "int \<Rightarrow> int \<times> int \<times> int \<times> int \<Rightarrow> panic + (int \<times> int \<times> int \<times> int)" where
  "readWrite_params scale rnd =
     (case rnd of (r1, r2, r3, r4) \<Rightarrow>
        andThen (IntN (wrap64 (scale * 100000)) r1) (\<lambda>aid.
        andThen (IntN (wrap64 (scale * 10)) r2) (\<lambda>tid.
        andThen (IntN (wrap64 (scale * 1)) r3) (\<lambda>bid.
        andThen (Int64N 10000 r4) (\<lambda>r.
        Inr (aid, tid, bid, wrap64 (r - 5000)))))))"

text \<open>\<open>readWrite\<close>: the draws, then the transaction; \<open>now\<close> is the reading of the clock.\<close>

definition readWrite ::
  "json \<Rightarrow> int \<Rightarrow> int \<times> int \<times> int \<times> int \<Rightarrow> int \<Rightarrow> db \<Rightarrow> panic + db" where
  "readWrite J scale rnd now d =
     andThen (readWrite_params scale rnd) (\<lambda>(aid, tid, bid, adelta).
     andThen (Update d (readWrite_txn J aid tid bid adelta now)) (\<lambda>(u, d').
     Inr d'))"

definition read_txn :: "json \<Rightarrow> int \<Rightarrow> db \<Rightarrow> panic + (unit \<times> db)" where
  "read_txn J aid txn =
     andThen (Bucket_Get txn accountPrefix (keyFor aid)) (\<lambda>accVal.
       case accVal of
         None \<Rightarrow> Inl (Panic ''account not found for key'')
       | Some bs \<Rightarrow>
           (case UnmarshalAccount J bs of
              None \<Rightarrow> Inl JsonError
            | Some acc \<Rightarrow> Inr ((), txn)))"

definition read :: "json \<Rightarrow> int \<Rightarrow> int \<Rightarrow> db \<Rightarrow> panic + db" where
  "read J scale r1 d =
     andThen (IntN (wrap64 (scale * 100000)) r1) (\<lambda>aid.
     andThen (View d (read_txn J aid)) (\<lambda>(u, d'). Inr d'))"

text \<open>
  bolt runs one read-write transaction at a time, so the \<open>readWrite\<close> calls of a run
  take effect one after the other, whichever worker makes them; the first panic ends
  the run.
\<close>

fun runReadWrite ::
  "json \<Rightarrow> int \<Rightarrow> ((int \<times> int \<times> int \<times> int) \<times> int) list \<Rightarrow> db \<Rightarrow> panic + db" where
  "runReadWrite J scale [] d = Inr d"
| "runReadWrite J scale (op # ops) d =
     andThen (readWrite J scale (fst op) (snd op) d) (runReadWrite J scale ops)"

section \<open>Specification predicates\<close>

text \<open>
  \<open>written J p g lo hi d d'\<close>: the database \<open>d'\<close> is \<open>d\<close> after the keys \<open>lo\<close> up to
  \<open>hi - 1\<close> of the bucket \<open>p\<close> were put with the encodings of \<open>g lo\<close>, ..., \<open>g (hi - 1)\<close>;
  every other key, the sequence counter and every other bucket are as in \<open>d\<close>.
\<close>

definition written :: "json \<Rightarrow> string \<Rightarrow> (int \<Rightarrow> go_value) \<Rightarrow> int \<Rightarrow> int \<Rightarrow> db \<Rightarrow> db \<Rightarrow> bool" where
  "written J p g lo hi d d' \<longleftrightarrow>
     (\<exists>b b'. d p = Some b \<and> d' p = Some b' \<and> sequence b' = sequence b
        \<and> (\<forall>n. n \<noteq> p \<longrightarrow> d' n = d n)
        \<and> (\<forall>i. lo \<le> i \<and> i < hi \<longrightarrow>
               Marshal J (g i) \<noteq> None \<and> map_of (entries b') (keyFor i) = Marshal J (g i))
        \<and> (\<forall>k. (\<forall>i. lo \<le> i \<and> i < hi \<longrightarrow> k \<noteq> keyFor i) \<longrightarrow>
               map_of (entries b') k = map_of (entries b) k)
        \<and> (distinct (map fst (entries b)) \<longrightarrow> distinct (map fst (entries b'))))"

text \<open>
  \<open>historySound h\<close>: the history bucket is as \<open>readWrite\<close> calls leave it. Its keys are
  distinct, its sequence counter is a \<open>uint64\<close>, and every key is the key of a sequence
  number handed out so far, 1 up to the counter. The bucket a fresh database gets from
  \<open>CreateBucketIfNotExists\<close>, empty with the counter at 0, is sound.
\<close>

definition historySound :: "bucket \<Rightarrow> bool" where
  "historySound h \<longleftrightarrow>
     distinct (map fst (entries h)) \<and> 0 \<le> sequence h \<and> sequence h < 2 ^ 64 \<and>
     fst ` set (entries h) \<subseteq> (\<lambda>s. keyFor (wrap64 s)) ` {1..sequence h}"

section \<open>A codec and databases for closed examples\<close>

text \<open>
  The JSON text \<open>encoding/json\<close> writes for the four structs when \<open>Filler\<close> needs no
  escaping (the keys are the field names, the numbers decimal), with \<open>Mtime\<close> written
  as a number, and a reader of that text. The closed examples instantiate the codec
  with it.
\<close>

definition quote :: "string \<Rightarrow> string" where
  "quote s = CHR 0x22 # s @ [CHR 0x22]"

fun jsonFields :: "(string \<times> string) list \<Rightarrow> string" where
  "jsonFields [] = []"
| "jsonFields [(n, v)] = quote n @ '':'' @ v"
| "jsonFields ((n, v) # f # fs) = quote n @ '':'' @ v @ '','' @ jsonFields (f # fs)"

definition jsonObject :: "(string \<times> string) list \<Rightarrow> string" where
  "jsonObject fs = ''{'' @ jsonFields fs @ ''}''"

fun sampleMarshal :: "go_value \<Rightarrow> string" where
  "sampleMarshal (VAccount a) = jsonObject
     [(''AID'', Itoa (Account.AID a)), (''BID'', Itoa (Account.BID a)),
      (''Abalance'', Itoa (Abalance a)), (''Filler'', quote (Account.Filler a))]"
| "sampleMarshal (VTeller t) = jsonObject
     [(''TID'', Itoa (Teller.TID t)), (''BID'', Itoa (Teller.BID t)),
      (''Tbalance'', Itoa (Tbalance t)), (''Filler'', quote (Teller.Filler t))]"
| "sampleMarshal (VBranche b) = jsonObject
     [(''BID'', Itoa (Branche.BID b)), (''Bbalance'', Itoa (Bbalance b)),
      (''Filler'', quote (Branche.Filler b))]"
| "sampleMarshal (VHistory h) = jsonObject
     [(''TID'', Itoa (History.TID h)), (''BID'', Itoa (History.BID h)),
      (''AID'', Itoa (History.AID h)), (''Delta'', Itoa (Delta h)),
      (''Mtime'', Itoa (Mtime h)), (''Filler'', quote (History.Filler h))]"

fun splitOn :: "char \<Rightarrow> string \<Rightarrow> string list" where
  "splitOn c [] = [[]]"
| "splitOn c (x # xs) =
     (if x = c then [] # splitOn c xs
      else (case splitOn c xs of [] \<Rightarrow> [[x]] | w # ws \<Rightarrow> (x # w) # ws))"

definition unquote :: "string \<Rightarrow> string option" where
  "unquote s = (if 2 \<le> length s \<and> hd s = CHR 0x22 \<and> last s = CHR 0x22
                then Some (butlast (tl s)) else None)"

fun unum :: "nat \<Rightarrow> string \<Rightarrow> nat option" where
  "unum a [] = Some a"
| "unum a (c # cs) =
     (if c \<in> set ''0123456789'' then unum (10 * a + (of_char c - 48)) cs else None)"

definition Atoi :: "string \<Rightarrow> int option" where
  "Atoi s = (case s of
               [] \<Rightarrow> None
             | c # cs \<Rightarrow>
                 if c = CHR ''-'' then (if cs = [] then None else map_option (\<lambda>n. - int n) (unum 0 cs))
                 else map_option int (unum 0 s))"

definition parseField :: "string \<Rightarrow> (string \<times> string) option" where
  "parseField f = (case splitOn CHR '':'' f of
                     [n, v] \<Rightarrow> map_option (\<lambda>n'. (n', v)) (unquote n)
                   | _ \<Rightarrow> None)"

definition parseObject :: "string \<Rightarrow> (string \<times> string) list option" where
  "parseObject s = (case s of
                      [] \<Rightarrow> None
                    | c # rest \<Rightarrow>
                        if c = CHR ''{'' \<and> rest \<noteq> [] \<and> last rest = CHR ''}''
                        then those (map parseField (splitOn CHR '','' (butlast rest)))
                        else None)"

definition intField :: "(string \<times> string) list \<Rightarrow> string \<Rightarrow> int option" where
  "intField fs n = Option.bind (map_of fs n) Atoi"

definition strField :: "(string \<times> string) list \<Rightarrow> string \<Rightarrow> string option" where
  "strField fs n = Option.bind (map_of fs n) unquote"

definition sampleUnmarshalAccount :: "string \<Rightarrow> Account option" where
  "sampleUnmarshalAccount bs =
     Option.bind (parseObject bs) (\<lambda>fs.
     Option.bind (intField fs ''AID'') (\<lambda>a.
     Option.bind (intField fs ''BID'') (\<lambda>b.
     Option.bind (intField fs ''Abalance'') (\<lambda>c.
     Option.bind (strField fs ''Filler'') (\<lambda>f.
     Some \<lparr>Account.AID = a, Account.BID = b, Abalance = c, Account.Filler = f\<rparr>)))))"

definition sampleUnmarshalTeller :: "string \<Rightarrow> Teller option" where
  "sampleUnmarshalTeller bs =
     Option.bind (parseObject bs) (\<lambda>fs.
     Option.bind (intField fs ''TID'') (\<lambda>a.
     Option.bind (intField fs ''BID'') (\<lambda>b.
     Option.bind (intField fs ''Tbalance'') (\<lambda>c.
     Option.bind (strField fs ''Filler'') (\<lambda>f.
     Some \<lparr>Teller.TID = a, Teller.BID = b, Tbalance = c, Teller.Filler = f\<rparr>)))))"

definition sampleUnmarshalBranche :: "string \<Rightarrow> Branche option" where
  "sampleUnmarshalBranche bs =
     Option.bind (parseObject bs) (\<lambda>fs.
     Option.bind (intField fs ''BID'') (\<lambda>b.
     Option.bind (intField fs ''Bbalance'') (\<lambda>c.
     Option.bind (strField fs ''Filler'') (\<lambda>f.
     Some \<lparr>Branche.BID = b, Bbalance = c, Branche.Filler = f\<rparr>))))"

definition sampleJson :: json where
  "sampleJson = \<lparr>Marshal = (\<lambda>v. Some (sampleMarshal v)),
                  UnmarshalAccount = sampleUnmarshalAccount,
                  UnmarshalTeller = sampleUnmarshalTeller,
                  UnmarshalBranche = sampleUnmarshalBranche\<rparr>"

text \<open>
  A bucket as seeding leaves it: the keys \<open>ids\<close>, each with the encoding of its
  generated record. \<open>exampleDb\<close> holds the records of a database of scale 1 that the
  examples touch.
\<close>

definition seeded :: "(int \<Rightarrow> go_value) \<Rightarrow> int list \<Rightarrow> bucket" where
  "seeded g ids = \<lparr>entries = map (\<lambda>i. (keyFor i, sampleMarshal (g i))) ids, sequence = 0\<rparr>"

definition exampleDb :: db where
  "exampleDb = [accountPrefix \<mapsto> seeded genAccount [0, 1],
                tellerPrefix \<mapsto> seeded genTeller [0, 1, 2],
                branchPrefix \<mapsto> seeded genBranche [0],
                historyPrefix \<mapsto> \<lparr>entries = [], sequence = 0\<rparr>]"

text \<open>
  \<open>exampleDbAfter\<close> is \<open>exampleDb\<close> after one \<open>readWrite\<close> that drew account 0, teller 2,
  branch 0 and the delta 7 at the instant 42; \<open>exampleDbReseeded\<close> is that database
  after \<open>fillTable\<close> with the target 3 on its branches.
\<close>

definition exampleDbAfter :: db where
  "exampleDbAfter =
     [accountPrefix \<mapsto>
        \<lparr>entries = [(keyFor 0, sampleMarshal (VAccount \<lparr>Account.AID = 0, Account.BID = 0,
                                     Abalance = 7, Account.Filler = []\<rparr>)),
                    (keyFor 1, sampleMarshal (genAccount 1))],
         sequence = 0\<rparr>,
      tellerPrefix \<mapsto>
        \<lparr>entries = [(keyFor 0, sampleMarshal (genTeller 0)),
                    (keyFor 1, sampleMarshal (genTeller 1)),
                    (keyFor 2, sampleMarshal (VTeller \<lparr>Teller.TID = 2, Teller.BID = 0,
                                     Tbalance = 7, Teller.Filler = []\<rparr>))],
         sequence = 0\<rparr>,
      branchPrefix \<mapsto>
        \<lparr>entries = [(keyFor 0, sampleMarshal (genBranche 0)),
                    (keyFor 2, sampleMarshal (VBranche \<lparr>Branche.BID = 0, Bbalance = 7,
                                     Branche.Filler = []\<rparr>))],
         sequence = 0\<rparr>,
      historyPrefix \<mapsto>
        \<lparr>entries = [(keyFor 1, sampleMarshal (VHistory \<lparr>History.TID = 2, History.BID = 0,
                                     History.AID = 0, Delta = 7, Mtime = 42,
                                     History.Filler = []\<rparr>))],
         sequence = 1\<rparr>]"

definition exampleDbReseeded :: db where
  "exampleDbReseeded =
     exampleDbAfter(branchPrefix \<mapsto>
        \<lparr>entries = [(keyFor 0, sampleMarshal (genBranche 0)),
                    (keyFor 2, sampleMarshal (genBranche 2))],
         sequence = 0\<rparr>)"

section \<open>Integers and keys\<close>

lemma wrap64_id: "- (2 ^ 63) \<le> x \<Longrightarrow> x < 2 ^ 63 \<Longrightarrow> wrap64 x = x"
  unfolding wrap64_def by simp


lemma lt10_cases: "(d::nat) < 10 \<Longrightarrow> d = 0 \<or> d = 1 \<or> d = 2 \<or> d = 3 \<or> d = 4 \<or> d = 5 \<or> d = 6 \<or> d = 7 \<or> d = 8 \<or> d = 9"
  by presburger

lemma digit_code: "d < 10 \<Longrightarrow> of_char (''0123456789'' ! d) = (48::nat) + d"
proof -
  assume "d < 10"
  then have "d = 0 \<or> d = 1 \<or> d = 2 \<or> d = 3 \<or> d = 4 \<or> d = 5 \<or> d = 6 \<or> d = 7 \<or> d = 8 \<or> d = 9"
    by (rule lt10_cases)
  then show ?thesis by (elim disjE) simp_all
qed

lemma digit_inj:
  assumes "a < 10" and "b < 10" and e: "''0123456789'' ! a = ''0123456789'' ! b"
  shows "a = b"
proof -
  have "(48::nat) + a = of_char (''0123456789'' ! a)" by (rule digit_code [OF assms(1), symmetric])
  also have "\<dots> = of_char (''0123456789'' ! b)" by (simp only: e)
  also have "\<dots> = 48 + b" by (rule digit_code [OF assms(2)])
  finally show ?thesis by simp
qed

lemma digit_not_minus: "d < 10 \<Longrightarrow> ''0123456789'' ! d \<noteq> CHR ''-''"
proof
  assume d: "d < 10" and e: "''0123456789'' ! d = CHR ''-''"
  have "of_char (CHR ''-'') = (48::nat) + d" by (simp only: e [symmetric] digit_code [OF d])
  then show False by simp
qed

lemma udigits_nonempty: "udigits n \<noteq> []"
  by (subst udigits.simps) simp

lemma udigits_length_one: "length (udigits n) = Suc 0 \<longleftrightarrow> n < 10"
  by (subst udigits.simps) (simp add: udigits_nonempty)

lemma udigits_hd_not_minus: "hd (udigits n) \<noteq> CHR ''-''"
proof (induction n rule: udigits.induct)
  case (1 n)
  show ?case
  proof (cases "n < 10")
    case True
    then show ?thesis by (subst udigits.simps) (simp add: digit_not_minus)
  next
    case False
    with 1 show ?thesis by (subst udigits.simps) (simp add: udigits_nonempty)
  qed
qed

lemma udigits_inj: "udigits n = udigits m \<Longrightarrow> n = m"
proof (induction n arbitrary: m rule: udigits.induct)
  case (1 n)
  show ?case
  proof (cases "n < 10")
    case True
    then have "length (udigits m) = Suc 0" using 1(2) udigits_length_one [of n] by simp
    then have m: "m < 10" by (simp add: udigits_length_one)
    from 1(2) True m have "''0123456789'' ! n = ''0123456789'' ! m"
      by (simp add: udigits.simps [of n] udigits.simps [of m])
    with True m show ?thesis by (intro digit_inj)
  next
    case False
    then have "length (udigits m) \<noteq> Suc 0" using 1(2) udigits_length_one [of n] by simp
    then have m: "\<not> m < 10" by (simp add: udigits_length_one)
    from 1(2) False m have e: "udigits (n div 10) @ [''0123456789'' ! (n mod 10)]
                         = udigits (m div 10) @ [''0123456789'' ! (m mod 10)]"
      by (simp add: udigits.simps [of n] udigits.simps [of m])
    then have "udigits (n div 10) = udigits (m div 10)" by simp
    then have d: "n div 10 = m div 10" using 1(1) False by blast
    from e have "''0123456789'' ! (n mod 10) = ''0123456789'' ! (m mod 10)" by simp
    then have "n mod 10 = m mod 10" by (intro digit_inj) simp_all
    with d show ?thesis by (metis div_mult_mod_eq)
  qed
qed

lemma Itoa_inj: "Itoa a = Itoa b \<Longrightarrow> a = b"
proof -
  assume e: "Itoa a = Itoa b"
  have neq: "CHR ''-'' # udigits x \<noteq> udigits y" for x y
    using udigits_hd_not_minus [of y] by (cases "udigits y") (auto simp: udigits_nonempty)
  show ?thesis
  proof (cases "a < 0")
    case True
    show ?thesis
    proof (cases "b < 0")
      case True
      with \<open>a < 0\<close> e have "udigits (nat (- a)) = udigits (nat (- b))" by (simp add: Itoa_def)
      then have "nat (- a) = nat (- b)" by (rule udigits_inj)
      with True \<open>a < 0\<close> show ?thesis by simp
    next
      case False
      with \<open>a < 0\<close> e neq show ?thesis by (simp add: Itoa_def)
    qed
  next
    case False
    show ?thesis
    proof (cases "b < 0")
      case True
      with False e neq [of "nat (- b)" "nat a"] show ?thesis by (simp add: Itoa_def)
    next
      case b: False
      with False e have "udigits (nat a) = udigits (nat b)" by (simp add: Itoa_def)
      then have "nat a = nat b" by (rule udigits_inj)
      with False b show ?thesis by simp
    qed
  qed
qed

lemma keyFor_inj: "keyFor a = keyFor b \<longleftrightarrow> a = b"
  unfolding keyFor_def using Itoa_inj by blast

lemma inj_keyFor: "inj_on keyFor A"
  by (rule inj_onI) (simp add: keyFor_inj)

section \<open>Seeding: the loops\<close>

lemma countKeys_fold: "fold (\<lambda>kv created. created + 1) xs a = a + int (length xs)"
  by (induction xs arbitrary: a) auto

lemma written_empty: "d p = Some b \<Longrightarrow> hi \<le> lo \<Longrightarrow> written J p g lo hi d d"
  unfolding written_def by auto

lemma written_put:
  assumes "d p = Some b" and "Marshal J (g i) = Some v"
    and "Bucket_Put d p (keyFor i) v = Inr d'"
  shows "written J p g i (i + 1) d d'"
proof -
  let ?b' = "b\<lparr>entries := AList.update (keyFor i) v (entries b)\<rparr>"
  from assms(1,3) have d': "d' = d(p \<mapsto> ?b')"
    by (simp add: Bucket_Put_def)
  have m: "map_of (entries ?b') = (map_of (entries b))(keyFor i \<mapsto> v)"
    by (simp add: update_conv')
  have 1: "d' p = Some ?b'" by (simp add: d')
  have 2: "sequence ?b' = sequence b" by simp
  have 3: "\<forall>n. n \<noteq> p \<longrightarrow> d' n = d n" by (simp add: d')
  have 4: "\<forall>j. i \<le> j \<and> j < i + 1 \<longrightarrow>
             Marshal J (g j) \<noteq> None \<and> map_of (entries ?b') (keyFor j) = Marshal J (g j)"
  proof (intro allI impI)
    fix j assume "i \<le> j \<and> j < i + 1"
    then have "j = i" by simp
    then show "Marshal J (g j) \<noteq> None \<and> map_of (entries ?b') (keyFor j) = Marshal J (g j)"
      using assms(2) m by simp
  qed
  have 5: "\<forall>k. (\<forall>j. i \<le> j \<and> j < i + 1 \<longrightarrow> k \<noteq> keyFor j) \<longrightarrow>
             map_of (entries ?b') k = map_of (entries b) k"
  proof (intro allI impI)
    fix k assume a: "\<forall>j. i \<le> j \<and> j < i + 1 \<longrightarrow> k \<noteq> keyFor j"
    have "k \<noteq> keyFor i" using a [rule_format, of i] by simp
    then show "map_of (entries ?b') k = map_of (entries b) k" using m by simp
  qed
  have 6: "distinct (map fst (entries b)) \<longrightarrow> distinct (map fst (entries ?b'))"
    by (simp add: distinct_update)
  show ?thesis
    unfolding written_def
    by (rule exI [of _ b], rule exI [of _ ?b'], intro conjI) (rule assms(1) 1 2 3 4 5 6)+
qed

lemma written_trans:
  assumes "lo \<le> mid" and "mid \<le> hi"
    and "written J p g lo mid d d'" and "written J p g mid hi d' d''"
  shows "written J p g lo hi d d''"
proof -
  from assms(3) obtain b b' where 1: "d p = Some b" "d' p = Some b'" "sequence b' = sequence b"
    "\<forall>n. n \<noteq> p \<longrightarrow> d' n = d n"
    "\<forall>i. lo \<le> i \<and> i < mid \<longrightarrow> Marshal J (g i) \<noteq> None \<and> map_of (entries b') (keyFor i) = Marshal J (g i)"
    "\<forall>k. (\<forall>i. lo \<le> i \<and> i < mid \<longrightarrow> k \<noteq> keyFor i) \<longrightarrow> map_of (entries b') k = map_of (entries b) k"
    "distinct (map fst (entries b)) \<longrightarrow> distinct (map fst (entries b'))"
    unfolding written_def by blast
  from assms(4) 1(2) obtain b'' where 2: "d'' p = Some b''" "sequence b'' = sequence b'"
    "\<forall>n. n \<noteq> p \<longrightarrow> d'' n = d' n"
    "\<forall>i. mid \<le> i \<and> i < hi \<longrightarrow> Marshal J (g i) \<noteq> None \<and> map_of (entries b'') (keyFor i) = Marshal J (g i)"
    "\<forall>k. (\<forall>i. mid \<le> i \<and> i < hi \<longrightarrow> k \<noteq> keyFor i) \<longrightarrow> map_of (entries b'') k = map_of (entries b') k"
    "distinct (map fst (entries b')) \<longrightarrow> distinct (map fst (entries b''))"
    unfolding written_def by auto
  have vals: "Marshal J (g i) \<noteq> None \<and> map_of (entries b'') (keyFor i) = Marshal J (g i)"
    if "lo \<le> i" "i < hi" for i
  proof (cases "i < mid")
    case True
    then have "\<forall>j. mid \<le> j \<and> j < hi \<longrightarrow> keyFor i \<noteq> keyFor j" by (auto simp: keyFor_inj)
    then have "map_of (entries b'') (keyFor i) = map_of (entries b') (keyFor i)" using 2(5) by blast
    then show ?thesis using 1(5) True that by simp
  next
    case False
    then show ?thesis using 2(4) that by simp
  qed
  have frame: "map_of (entries b'') k = map_of (entries b) k"
    if "\<forall>i. lo \<le> i \<and> i < hi \<longrightarrow> k \<noteq> keyFor i" for k
  proof -
    have "map_of (entries b'') k = map_of (entries b') k" using 2(5) that assms(1) by force
    also have "\<dots> = map_of (entries b) k" using 1(6) that assms(2) by force
    finally show ?thesis .
  qed
  show ?thesis
    unfolding written_def
    apply (rule exI [of _ b])
    apply (rule exI [of _ b''])
    using 1(1,3,4,7) 2(1,2,3,6) vals frame by simp
qed

lemma valueFor_Inr: "valueFor J x = Inr v \<longleftrightarrow> Marshal J x = Some v"
  by (simp add: valueFor_def split: option.splits)

lemma written_bucket: "written J p g lo hi d d' \<Longrightarrow> \<exists>b'. d' p = Some b'"
  unfolding written_def by blast

lemma fillBatch_stop:
  "\<not> (it < limit \<and> it - created < 1000) \<Longrightarrow> fillBatch J p g limit created it txn = Inr txn"
  by (subst fillBatch.simps) (rule if_not_P)

lemma fillBatch_step:
  "it < limit \<and> it - created < 1000 \<Longrightarrow>
   fillBatch J p g limit created it txn =
     andThen (valueFor J (g it)) (\<lambda>v.
     andThen (Bucket_Put txn p (keyFor it) v) (\<lambda>txn'.
     fillBatch J p g limit created (it + 1) txn'))"
  by (subst fillBatch.simps) (rule if_P)

lemma fillBatch_written:
  "txn p = Some b \<Longrightarrow> fillBatch J p g limit created it txn = Inr d' \<Longrightarrow>
   written J p g it (min limit (created + 1000)) txn d'"
proof (induction J p g limit created it txn arbitrary: b d' rule: fillBatch.induct)
  case (1 J prefix genfunc limit created it txn)
  show ?case
  proof (cases "it < limit \<and> it - created < 1000")
    case False
    have "d' = txn" using 1(3) by (simp only: fillBatch_stop [OF False] sum.inject)
    then have "d' = txn" .
    moreover from False have "min limit (created + 1000) \<le> it" by auto
    ultimately show ?thesis using 1(2) written_empty by simp
  next
    case True
    from 1(3) True obtain v txn1 where v: "valueFor J (genfunc it) = Inr v"
      and p: "Bucket_Put txn prefix (keyFor it) v = Inr txn1"
      and r: "fillBatch J prefix genfunc limit created (it + 1) txn1 = Inr d'"
      by (simp only: fillBatch_step [OF True]) (auto simp: andThen_def split: sum.splits)
    from v have m: "Marshal J (genfunc it) = Some v" by (simp add: valueFor_Inr)
    have w1: "written J prefix genfunc it (it + 1) txn txn1"
      by (rule written_put [where g = genfunc and i = it, OF 1(2) m p])
    then obtain b1 where b1: "txn1 prefix = Some b1" using written_bucket by blast
    have w2: "written J prefix genfunc (it + 1) (min limit (created + 1000)) txn1 d'"
      by (rule 1(1) [OF True b1 r])
    from True have "it + 1 \<le> min limit (created + 1000)" by auto
    then show ?thesis using written_trans [OF _ _ w1 w2] by simp
  qed
qed

lemma fillBatch_returns:
  "txn p = Some b \<Longrightarrow>
   \<forall>i. it \<le> i \<and> i < min limit (created + 1000) \<longrightarrow> Marshal J (g i) \<noteq> None \<Longrightarrow>
   \<exists>d'. fillBatch J p g limit created it txn = Inr d'"
proof (induction J p g limit created it txn arbitrary: b rule: fillBatch.induct)
  case (1 J prefix genfunc limit created it txn)
  show ?case
  proof (cases "it < limit \<and> it - created < 1000")
    case False
    show ?thesis by (simp only: fillBatch_stop [OF False]) blast
  next
    case True
    then have "Marshal J (genfunc it) \<noteq> None" using 1(3) by simp
    then obtain v where m: "Marshal J (genfunc it) = Some v" by blast
    let ?txn1 = "txn(prefix \<mapsto> b\<lparr>entries := AList.update (keyFor it) v (entries b)\<rparr>)"
    have p: "Bucket_Put txn prefix (keyFor it) v = Inr ?txn1"
      using 1(2) by (simp add: Bucket_Put_def)
    have "\<exists>d'. fillBatch J prefix genfunc limit created (it + 1) ?txn1 = Inr d'"
    proof (rule 1(1) [OF True])
      show "?txn1 prefix = Some (b\<lparr>entries := AList.update (keyFor it) v (entries b)\<rparr>)" by simp
      show "\<forall>i. it + 1 \<le> i \<and> i < min limit (created + 1000) \<longrightarrow> Marshal J (genfunc i) \<noteq> None"
        using 1(3) by simp
    qed
    then show ?thesis
      using m p by (simp only: fillBatch_step [OF True]) (simp add: andThen_def valueFor_def)
  qed
qed

lemma fillLoop_stop: "\<not> created < limit \<Longrightarrow> fillLoop J p g limit created d = Some (Inr d)"
  by (subst fillLoop.simps) simp

lemma fillLoop_step:
  "created < limit \<Longrightarrow> fillBatch J p g limit created created d = Inr d1 \<Longrightarrow>
   fillLoop J p g limit created d = fillLoop J p g limit (wrap64 (created + 1000)) d1"
  by (subst fillLoop.simps) (simp add: Update_def andThen_def)

lemma fillLoop_panic:
  "created < limit \<Longrightarrow> fillBatch J p g limit created created d = Inl e \<Longrightarrow>
   fillLoop J p g limit created d = Some (Inl e)"
  by (subst fillLoop.simps) (simp add: Update_def andThen_def)

lemma fillLoop_written:
  assumes lim: "limit \<le> 2 ^ 63 - 1000"
  shows "- (2 ^ 63) \<le> created \<Longrightarrow> d p = Some b \<Longrightarrow>
         fillLoop J p g limit created d = Some (Inr d') \<Longrightarrow> written J p g created limit d d'"
proof (induction "nat (limit - created)" arbitrary: created d b rule: less_induct)
  case less
  show ?case
  proof (cases "created < limit")
    case False
    then have "d' = d" using less.prems(3) by (simp add: fillLoop_stop)
    then show ?thesis using False less.prems(2) by (simp add: written_empty)
  next
    case True
    show ?thesis
    proof (cases "fillBatch J p g limit created created d")
      case (Inl e)
      then show ?thesis using less.prems(3) fillLoop_panic [OF True Inl] by simp
    next
      case (Inr d1)
      have w: "wrap64 (created + 1000) = created + 1000"
        using True lim less.prems(1) by (intro wrap64_id) simp_all
      have r: "fillLoop J p g limit (created + 1000) d1 = Some (Inr d')"
        using less.prems(3) fillLoop_step [OF True Inr] w by simp
      have w1: "written J p g created (min limit (created + 1000)) d d1"
        by (rule fillBatch_written [OF less.prems(2) Inr])
      then obtain b1 where b1: "d1 p = Some b1" using written_bucket by blast
      show ?thesis
      proof (cases "created + 1000 \<le> limit")
        case le: True
        have "nat (limit - (created + 1000)) < nat (limit - created)" using True by simp
        moreover have "- (2 ^ 63) \<le> created + 1000" using less.prems(1) by simp
        ultimately have w2: "written J p g (created + 1000) limit d1 d'"
          using less.hyps b1 r by blast
        from le have "min limit (created + 1000) = created + 1000" by simp
        with w1 have "written J p g created (created + 1000) d d1" by simp
        then show ?thesis using written_trans [OF _ le _ w2] by simp
      next
        case gt: False
        then have "d' = d1" using r by (simp add: fillLoop_stop)
        moreover from gt have "min limit (created + 1000) = limit" by simp
        ultimately show ?thesis using w1 by simp
      qed
    qed
  qed
qed

lemma fillLoop_returns:
  assumes lim: "limit \<le> 2 ^ 63 - 1000"
  shows "- (2 ^ 63) \<le> created \<Longrightarrow> d p = Some b \<Longrightarrow>
         \<forall>i. created \<le> i \<and> i < limit \<longrightarrow> Marshal J (g i) \<noteq> None \<Longrightarrow>
         \<exists>d'. fillLoop J p g limit created d = Some (Inr d')"
proof (induction "nat (limit - created)" arbitrary: created d b rule: less_induct)
  case less
  show ?case
  proof (cases "created < limit")
    case False
    then show ?thesis by (simp add: fillLoop_stop)
  next
    case True
    have "\<forall>i. created \<le> i \<and> i < min limit (created + 1000) \<longrightarrow> Marshal J (g i) \<noteq> None"
      using less.prems(3) by simp
    then obtain d1 where d1: "fillBatch J p g limit created created d = Inr d1"
      using fillBatch_returns [where txn = d and p = p, OF less.prems(2)] by blast
    have w: "wrap64 (created + 1000) = created + 1000"
      using True lim less.prems(1) by (intro wrap64_id) simp_all
    have "written J p g created (min limit (created + 1000)) d d1"
      by (rule fillBatch_written [OF less.prems(2) d1])
    then obtain b1 where b1: "d1 p = Some b1" using written_bucket by blast
    have "nat (limit - (created + 1000)) < nat (limit - created)" using True by simp
    moreover have "- (2 ^ 63) \<le> created + 1000" using less.prems(1) by simp
    moreover have "\<forall>i. created + 1000 \<le> i \<and> i < limit \<longrightarrow> Marshal J (g i) \<noteq> None"
      using less.prems(3) by simp
    ultimately have "\<exists>d'. fillLoop J p g limit (created + 1000) d1 = Some (Inr d')"
      using less.hyps b1 by blast
    then show ?thesis using fillLoop_step [OF True d1] w by simp
  qed
qed

lemma fillTable_unfold:
  "d p = Some b \<Longrightarrow>
   fillTable J d p limit g = fillLoop J p g limit (int (length (entries b))) d"
  by (simp add: fillTable_def View_def countKeys_def countKeys_fold)

lemma fillTable_noop:
  "d p = Some b \<Longrightarrow> limit \<le> int (length (entries b)) \<Longrightarrow>
   fillTable J d p limit g = Some (Inr d)"
  by (simp add: fillTable_unfold fillLoop_stop)

lemma written_D:
  assumes "written J p g lo hi d d'" and "d p = Some b" and "d' p = Some b'"
  shows "sequence b' = sequence b"
    and "\<And>i. lo \<le> i \<Longrightarrow> i < hi \<Longrightarrow> Marshal J (g i) \<noteq> None"
    and "\<And>i. lo \<le> i \<Longrightarrow> i < hi \<Longrightarrow> map_of (entries b') (keyFor i) = Marshal J (g i)"
    and "\<And>k. (\<And>i. lo \<le> i \<Longrightarrow> i < hi \<Longrightarrow> k \<noteq> keyFor i) \<Longrightarrow>
           map_of (entries b') k = map_of (entries b) k"
    and "distinct (map fst (entries b)) \<Longrightarrow> distinct (map fst (entries b'))"
    and "\<And>n. n \<noteq> p \<Longrightarrow> d' n = d n"
  using assms unfolding written_def by simp_all

lemma written_keys:
  assumes w: "written J p g lo hi d d'" and b: "d p = Some b" and b': "d' p = Some b'"
  shows "fst ` set (entries b') = fst ` set (entries b) \<union> keyFor ` {lo..<hi}"
proof -
  have "k \<in> dom (map_of (entries b')) \<longleftrightarrow>
        k \<in> dom (map_of (entries b)) \<union> keyFor ` {lo..<hi}" for k
  proof (cases "k \<in> keyFor ` {lo..<hi}")
    case True
    then obtain i where i: "k = keyFor i" "lo \<le> i" "i < hi" by auto
    have "map_of (entries b') (keyFor i) \<noteq> None"
      using written_D(2,3) [OF w b b' i(2,3)] by simp
    then show ?thesis using True i(1) by (simp add: dom_def)
  next
    case False
    then have "map_of (entries b') k = map_of (entries b) k"
      by (intro written_D(4) [OF w b b']) auto
    then show ?thesis using False by (simp add: dom_def)
  qed
  then have "dom (map_of (entries b')) = dom (map_of (entries b)) \<union> keyFor ` {lo..<hi}"
    by blast
  then show ?thesis by (simp only: dom_map_of_conv_image_fst)
qed

lemma keyFor_range_card: "0 \<le> n \<Longrightarrow> card (keyFor ` {0..<n}) = nat n"
  by (simp add: card_image inj_keyFor)

lemma distinct_keys_length:
  "distinct (map fst xs) \<Longrightarrow> int (length xs) = int (card (fst ` set xs))"
  using distinct_card [of "map fst xs"] by simp

lemma dense_length:
  assumes "distinct (map fst xs)" and "fst ` set xs = keyFor ` {0..<n}" and "0 \<le> n"
  shows "int (length xs) = n"
  using assms by (simp add: distinct_keys_length keyFor_range_card)

lemma fillTable_dense:
  assumes b: "d p = Some b"
    and dist: "distinct (map fst (entries b))"
    and keys: "fst ` set (entries b) = keyFor ` {0..<k}"
    and k: "0 \<le> k" "k \<le> limit"
    and lim: "limit \<le> 2 ^ 63 - 1000"
    and ok: "\<forall>i. k \<le> i \<and> i < limit \<longrightarrow> Marshal J (g i) \<noteq> None"
  shows "\<exists>d' b'. fillTable J d p limit g = Some (Inr d') \<and> d' p = Some b' \<and>
           written J p g k limit d d' \<and> distinct (map fst (entries b')) \<and>
           fst ` set (entries b') = keyFor ` {0..<limit} \<and> int (length (entries b')) = limit"
proof -
  have len: "int (length (entries b)) = k" by (rule dense_length [OF dist keys k(1)])
  have lo: "- (2 ^ 63) \<le> k" using k(1) by simp
  obtain d' where r: "fillLoop J p g limit k d = Some (Inr d')"
    using fillLoop_returns [where d = d and p = p and g = g and J = J, OF lim lo b ok] by blast
  have w: "written J p g k limit d d'" by (rule fillLoop_written [OF lim lo b r])
  then obtain b' where b': "d' p = Some b'" using written_bucket by blast
  have d1: "distinct (map fst (entries b'))" by (rule written_D(5) [OF w b b' dist])
  have "{0..<k} \<union> {k..<limit} = {0..<limit}" using k by auto
  then have ks: "fst ` set (entries b') = keyFor ` {0..<limit}"
    using written_keys [OF w b b'] keys by (simp add: image_Un [symmetric])
  have "0 \<le> limit" using k by simp
  then have "int (length (entries b')) = limit" by (rule dense_length [OF d1 ks])
  moreover have "fillTable J d p limit g = Some (Inr d')"
    using r len by (simp add: fillTable_unfold [where d = d and p = p, OF b])
  ultimately show ?thesis using b' w d1 ks by blast
qed

section \<open>Evaluation of the closed examples\<close>

lemma int_range_0_1: "{0..<1::int} = {0}"
  by auto

lemma exampleDb_branches: "exampleDb branchPrefix = Some (seeded genBranche [0])"
  by (simp add: exampleDb_def accountPrefix_def tellerPrefix_def branchPrefix_def
      historyPrefix_def)

lemma seeded_one_keys: "fst ` set (entries (seeded g [0])) = keyFor ` {0..<1}"
  by (simp add: seeded_def int_range_0_1)

lemmas prefix_defs = accountPrefix_def tellerPrefix_def branchPrefix_def historyPrefix_def

lemmas codec_eval = Itoa_def udigits.simps jsonObject_def quote_def genAccount_def
  genTeller_def genBranche_def sampleUnmarshalAccount_def sampleUnmarshalTeller_def
  sampleUnmarshalBranche_def parseObject_def parseField_def intField_def strField_def
  Atoi_def unquote_def sampleJson_def keyFor_def valueFor_def

lemma wrap64_small: "wrap64 7 = 7" "wrap64 100000 = 100000" "wrap64 10 = 10" "wrap64 1 = 1"
  "wrap64 1000 = 1000" "wrap64 1001 = 1001" "wrap64 1002 = 1002"
  by (simp_all add: wrap64_def)

lemma exampleDbAfter_branches:
  "exampleDbAfter branchPrefix =
     Some \<lparr>entries = [(keyFor 0, sampleMarshal (genBranche 0)),
                       (keyFor 2, sampleMarshal (VBranche \<lparr>Branche.BID = 0, Bbalance = 7,
                                        Branche.Filler = []\<rparr>))],
            sequence = 0\<rparr>"
  by (simp add: exampleDbAfter_def prefix_defs)

lemma sampleJson_valueFor: "valueFor sampleJson v = Inr (sampleMarshal v)"
  by (simp add: valueFor_def sampleJson_def)

lemma reseed_eval:
  "fillTable sampleJson exampleDbAfter branchPrefix 3 genBranche = Some (Inr exampleDbReseeded)"
proof -
  have batch: "fillBatch sampleJson branchPrefix genBranche 3 2 2 exampleDbAfter
                 = Inr exampleDbReseeded"
    by (simp add: fillBatch.simps [of _ _ _ _ _ 2] fillBatch.simps [of _ _ _ _ _ 3]
        andThen_def sampleJson_valueFor Bucket_Put_def exampleDbAfter_branches
        exampleDbReseeded_def keyFor_inj)
  have "fillTable sampleJson exampleDbAfter branchPrefix 3 genBranche
          = fillLoop sampleJson branchPrefix genBranche 3 2 exampleDbAfter"
    by (simp add: fillTable_unfold [where d = exampleDbAfter and p = branchPrefix,
          OF exampleDbAfter_branches])
  also have "\<dots> = fillLoop sampleJson branchPrefix genBranche 3 (wrap64 (2 + 1000))
                     exampleDbReseeded"
    by (rule fillLoop_step [OF _ batch]) simp
  also have "\<dots> = Some (Inr exampleDbReseeded)"
    by (rule fillLoop_stop) (simp add: wrap64_def)
  finally show ?thesis .
qed

lemma seed_eval:
  "fillTable sampleJson exampleDb branchPrefix 3 genBranche =
     Some (Inr (exampleDb(branchPrefix \<mapsto> seeded genBranche [0, 1, 2])))"
proof -
  have batch: "fillBatch sampleJson branchPrefix genBranche 3 1 1 exampleDb
                 = Inr (exampleDb(branchPrefix \<mapsto> seeded genBranche [0, 1, 2]))"
    by (simp add: fillBatch.simps [of _ _ _ _ _ 1] fillBatch.simps [of _ _ _ _ _ 2]
        fillBatch.simps [of _ _ _ _ _ 3] andThen_def sampleJson_valueFor Bucket_Put_def
        exampleDb_branches seeded_def keyFor_inj)
  have "fillTable sampleJson exampleDb branchPrefix 3 genBranche
          = fillLoop sampleJson branchPrefix genBranche 3 1 exampleDb"
    by (simp add: fillTable_unfold [where d = exampleDb and p = branchPrefix,
          OF exampleDb_branches] seeded_def)
  also have "\<dots> = fillLoop sampleJson branchPrefix genBranche 3 (wrap64 (1 + 1000))
                     (exampleDb(branchPrefix \<mapsto> seeded genBranche [0, 1, 2]))"
    by (rule fillLoop_step [OF _ batch]) simp
  also have "\<dots> = Some (Inr (exampleDb(branchPrefix \<mapsto> seeded genBranche [0, 1, 2])))"
    by (rule fillLoop_stop) (simp add: wrap64_def)
  finally show ?thesis .
qed

lemma int_range_1_3: "1 \<le> i \<and> i < 3 \<longleftrightarrow> i = 1 \<or> i = (2::int)"
  by auto

lemma sample_decodes_branches:
  "UnmarshalBranche sampleJson (sampleMarshal (genBranche 0)) \<noteq> None"
  "UnmarshalBranche sampleJson (sampleMarshal (genBranche 1)) \<noteq> None"
  "UnmarshalBranche sampleJson (sampleMarshal (genBranche 2)) \<noteq> None"
  by (simp_all add: codec_eval)

section \<open>Seeding: the claims\<close>

text \<open>
  C2, as amended. When the bucket holds \<open>k\<close> records, under the keys of 0 to \<open>k - 1\<close>,
  and \<open>k\<close> is at most the target, \<open>fillTable\<close> returns and the keys of the bucket are
  then exactly those of 0 to \<open>limit - 1\<close>: the first \<open>k\<close> with the values they had, each
  other key \<open>i\<close> with the encoding of \<open>genfunc i\<close>, whatever the size of the last
  batch. Every value can be decoded when the values that were there can and the codec
  decodes what it encodes of the generated records (\<open>decodes\<close> is any such test, for
  instance that \<open>UnmarshalBranche\<close> succeeds). The target is at least 1000 below the
  largest \<open>int\<close> and the generated records can be encoded.
\<close>

theorem fillTable_complete:
  assumes "d prefix = Some b"
    and "distinct (map fst (entries b))"
    and "fst ` set (entries b) = keyFor ` {0..<k}"
    and "0 \<le> k" and "k \<le> limit"
    and "limit \<le> 2 ^ 63 - 1000"
    and "\<forall>i. k \<le> i \<and> i < limit \<longrightarrow> Marshal J (genfunc i) \<noteq> None"
    and "\<forall>kv \<in> set (entries b). decodes (snd kv)"
    and "\<forall>i v. k \<le> i \<and> i < limit \<and> Marshal J (genfunc i) = Some v \<longrightarrow> decodes v"
  shows "\<exists>d' b'. fillTable J d prefix limit genfunc = Some (Inr d') \<and> d' prefix = Some b' \<and>
           distinct (map fst (entries b')) \<and>
           fst ` set (entries b') = keyFor ` {0..<limit} \<and>
           (\<forall>i. 0 \<le> i \<and> i < k \<longrightarrow>
              map_of (entries b') (keyFor i) = map_of (entries b) (keyFor i)) \<and>
           (\<forall>i. k \<le> i \<and> i < limit \<longrightarrow>
              map_of (entries b') (keyFor i) = Marshal J (genfunc i)) \<and>
           (\<forall>kv \<in> set (entries b'). decodes (snd kv))"
proof -
  from fillTable_dense [where d = d and p = prefix and g = genfunc and J = J,
      OF assms(1,2,3,4,5,6,7)]
  obtain d' b' where r: "fillTable J d prefix limit genfunc = Some (Inr d')" "d' prefix = Some b'"
    "written J prefix genfunc k limit d d'" "distinct (map fst (entries b'))"
    "fst ` set (entries b') = keyFor ` {0..<limit}" by blast
  have old: "map_of (entries b') (keyFor i) = map_of (entries b) (keyFor i)" if "i < k" for i
    using that by (intro written_D(4) [OF r(3) assms(1) r(2)]) (simp add: keyFor_inj)
  have new: "map_of (entries b') (keyFor i) = Marshal J (genfunc i)" if "k \<le> i" "i < limit" for i
    using that by (intro written_D(3) [OF r(3) assms(1) r(2)])
  have dec: "decodes v" if kv: "(key, v) \<in> set (entries b')" for key v
  proof -
    have m: "map_of (entries b') key = Some v" using r(4) kv by simp
    from kv have "key \<in> fst ` set (entries b')" by force
    then obtain i where i: "key = keyFor i" "0 \<le> i" "i < limit" using r(5) by auto
    show ?thesis
    proof (cases "i < k")
      case True
      then have "map_of (entries b) (keyFor i) = Some v" using old m i(1) by simp
      then have "(keyFor i, v) \<in> set (entries b)" by (rule map_of_SomeD)
      then show ?thesis using assms(8) by force
    next
      case False
      then have "Marshal J (genfunc i) = Some v" using new [of i] m i by simp
      moreover have "k \<le> i" using False by simp
      ultimately show ?thesis using assms(9) [rule_format, of i v] i(3) by simp
    qed
  qed
  have "\<forall>kv \<in> set (entries b'). decodes (snd kv)" using dec by auto
  then show ?thesis using r(1,2,4,5) old new by blast
qed

theorem fillTable_complete_witness:
  "exampleDb branchPrefix = Some (seeded genBranche [0]) \<and>
   distinct (map fst (entries (seeded genBranche [0]))) \<and>
   fst ` set (entries (seeded genBranche [0])) = keyFor ` {0..<1} \<and>
   (\<exists>d' b'. fillTable sampleJson exampleDb branchPrefix 3 genBranche = Some (Inr d') \<and>
      d' branchPrefix = Some b' \<and> distinct (map fst (entries b')) \<and>
      fst ` set (entries b') = keyFor ` {0..<3} \<and>
      (\<forall>i. 0 \<le> i \<and> i < 1 \<longrightarrow>
         map_of (entries b') (keyFor i) = map_of (entries (seeded genBranche [0])) (keyFor i)) \<and>
      (\<forall>i. 1 \<le> i \<and> i < 3 \<longrightarrow>
         map_of (entries b') (keyFor i) = Marshal sampleJson (genBranche i)) \<and>
      (\<forall>kv \<in> set (entries b'). UnmarshalBranche sampleJson (snd kv) \<noteq> None))"
proof -
  have 2: "distinct (map fst (entries (seeded genBranche [0])))" by (simp add: seeded_def)
  have 7: "\<forall>i. 1 \<le> i \<and> i < 3 \<longrightarrow> Marshal sampleJson (genBranche i) \<noteq> None"
    by (simp add: sampleJson_def)
  have 8: "\<forall>kv \<in> set (entries (seeded genBranche [0])).
             UnmarshalBranche sampleJson (snd kv) \<noteq> None"
    using sample_decodes_branches(1) by (simp add: seeded_def)
  have 9: "\<forall>i v. 1 \<le> i \<and> i < 3 \<and> Marshal sampleJson (genBranche i) = Some v \<longrightarrow>
             UnmarshalBranche sampleJson v \<noteq> None"
  proof (intro allI impI)
    fix i v assume a: "1 \<le> i \<and> i < 3 \<and> Marshal sampleJson (genBranche i) = Some v"
    then have v: "v = sampleMarshal (genBranche i)" by (auto simp: sampleJson_def)
    from a have "1 \<le> i \<and> i < 3" by simp
    then have "i = 1 \<or> i = 2" by (simp only: int_range_1_3)
    then show "UnmarshalBranche sampleJson v \<noteq> None"
      using sample_decodes_branches(2,3) v by blast
  qed
  have "\<exists>d' b'. fillTable sampleJson exampleDb branchPrefix 3 genBranche = Some (Inr d') \<and>
      d' branchPrefix = Some b' \<and> distinct (map fst (entries b')) \<and>
      fst ` set (entries b') = keyFor ` {0..<3} \<and>
      (\<forall>i. 0 \<le> i \<and> i < 1 \<longrightarrow>
         map_of (entries b') (keyFor i) = map_of (entries (seeded genBranche [0])) (keyFor i)) \<and>
      (\<forall>i. 1 \<le> i \<and> i < 3 \<longrightarrow>
         map_of (entries b') (keyFor i) = Marshal sampleJson (genBranche i)) \<and>
      (\<forall>kv \<in> set (entries b'). UnmarshalBranche sampleJson (snd kv) \<noteq> None)"
    by (rule fillTable_complete [where d = exampleDb and prefix = branchPrefix
          and genfunc = genBranche and J = sampleJson and k = 1 and limit = 3
          and decodes = "\<lambda>v. UnmarshalBranche sampleJson v \<noteq> None",
          OF exampleDb_branches 2 seeded_one_keys _ _ _ 7 8 9]) simp_all
  then show ?thesis by (intro conjI) (rule exampleDb_branches 2 seeded_one_keys)+
qed

text \<open>
  C2, as stated, fails: the branches of \<open>exampleDbAfter\<close> are two records under the keys
  of 0 and 2; \<open>fillTable\<close> with the target 3 counts two records, writes the key of 2
  again and returns, and no record is under the key of 1.
\<close>

theorem fillTable_complete_counterexample:
  "fillTable sampleJson exampleDbAfter branchPrefix 3 genBranche = Some (Inr exampleDbReseeded) \<and>
   Bucket_Get exampleDbReseeded branchPrefix (keyFor 1) = Inr None"
  by (simp add: reseed_eval Bucket_Get_def exampleDbReseeded_def keyFor_inj)

text \<open>
  C3. Seeding is idempotent: when a call of \<open>fillTable\<close> has returned and the bucket then
  holds at least \<open>limit\<close> records, a second call with the same target returns the
  database unchanged.
\<close>

theorem fillTable_idempotent:
  assumes "fillTable J d prefix limit genfunc = Some (Inr d1)"
    and "d1 prefix = Some b1"
    and "limit \<le> int (length (entries b1))"
  shows "fillTable J d1 prefix limit genfunc = Some (Inr d1)"
  using assms(2,3) by (rule fillTable_noop)

theorem fillTable_idempotent_witness:
  "fillTable sampleJson exampleDb branchPrefix 3 genBranche =
     Some (Inr (exampleDb(branchPrefix \<mapsto> seeded genBranche [0, 1, 2]))) \<and>
   (exampleDb(branchPrefix \<mapsto> seeded genBranche [0, 1, 2])) branchPrefix =
     Some (seeded genBranche [0, 1, 2]) \<and>
   3 \<le> int (length (entries (seeded genBranche [0, 1, 2]))) \<and>
   fillTable sampleJson (exampleDb(branchPrefix \<mapsto> seeded genBranche [0, 1, 2]))
     branchPrefix 3 genBranche =
     Some (Inr (exampleDb(branchPrefix \<mapsto> seeded genBranche [0, 1, 2])))"
proof -
  have 2: "(exampleDb(branchPrefix \<mapsto> seeded genBranche [0, 1, 2])) branchPrefix =
             Some (seeded genBranche [0, 1, 2])" by simp
  have 3: "3 \<le> int (length (entries (seeded genBranche [0, 1, 2])))" by (simp add: seeded_def)
  show ?thesis
    by (intro conjI) (rule seed_eval 2 3 fillTable_idempotent [OF seed_eval 2 3])+
qed

text \<open>
  C4. Seeding resumes and preserves what is there: when the bucket holds \<open>k\<close> records,
  under the keys of 0 to \<open>k - 1\<close>, and \<open>k\<close> is below the target, \<open>fillTable\<close> returns,
  the bucket then holds exactly \<open>limit\<close> records, and the value under each of the keys
  of 0 to \<open>k - 1\<close> is the one it was. The target is at least 1000 below the largest
  \<open>int\<close>, so that \<open>created += 1000\<close> does not wrap around, and the generated records
  can be encoded, so that \<open>valueFor\<close> does not panic.
\<close>

theorem fillTable_resumes:
  assumes "d prefix = Some b"
    and "distinct (map fst (entries b))"
    and "fst ` set (entries b) = keyFor ` {0..<k}"
    and "0 \<le> k" and "k < limit"
    and "limit \<le> 2 ^ 63 - 1000"
    and "\<forall>i. k \<le> i \<and> i < limit \<longrightarrow> Marshal J (genfunc i) \<noteq> None"
  shows "\<exists>d' b'. fillTable J d prefix limit genfunc = Some (Inr d') \<and> d' prefix = Some b' \<and>
           distinct (map fst (entries b')) \<and> int (length (entries b')) = limit \<and>
           (\<forall>i. 0 \<le> i \<and> i < k \<longrightarrow>
              map_of (entries b') (keyFor i) = map_of (entries b) (keyFor i))"
proof -
  from assms(5) have "k \<le> limit" by simp
  from fillTable_dense [where d = d and p = prefix and g = genfunc and J = J, OF assms(1,2,3,4) this assms(6,7)]
  obtain d' b' where r: "fillTable J d prefix limit genfunc = Some (Inr d')" "d' prefix = Some b'"
    "written J prefix genfunc k limit d d'" "distinct (map fst (entries b'))"
    "int (length (entries b')) = limit" by blast
  have "map_of (entries b') (keyFor i) = map_of (entries b) (keyFor i)" if "i < k" for i
    using that by (intro written_D(4) [OF r(3) assms(1) r(2)]) (simp add: keyFor_inj)
  then show ?thesis using r by blast
qed

theorem fillTable_resumes_witness:
  "exampleDb branchPrefix = Some (seeded genBranche [0]) \<and>
   distinct (map fst (entries (seeded genBranche [0]))) \<and>
   fst ` set (entries (seeded genBranche [0])) = keyFor ` {0..<1} \<and>
   (\<exists>d' b'. fillTable sampleJson exampleDb branchPrefix 3 genBranche = Some (Inr d') \<and>
      d' branchPrefix = Some b' \<and> distinct (map fst (entries b')) \<and>
      int (length (entries b')) = 3 \<and>
      (\<forall>i. 0 \<le> i \<and> i < 1 \<longrightarrow>
         map_of (entries b') (keyFor i) = map_of (entries (seeded genBranche [0])) (keyFor i)))"
proof -
  have 2: "distinct (map fst (entries (seeded genBranche [0])))" by (simp add: seeded_def)
  have 7: "\<forall>i. 1 \<le> i \<and> i < 3 \<longrightarrow> Marshal sampleJson (genBranche i) \<noteq> None"
    by (simp add: sampleJson_def)
  have "\<exists>d' b'. fillTable sampleJson exampleDb branchPrefix 3 genBranche = Some (Inr d') \<and>
      d' branchPrefix = Some b' \<and> distinct (map fst (entries b')) \<and>
      int (length (entries b')) = 3 \<and>
      (\<forall>i. 0 \<le> i \<and> i < 1 \<longrightarrow>
         map_of (entries b') (keyFor i) = map_of (entries (seeded genBranche [0])) (keyFor i))"
    by (rule fillTable_resumes [where d = exampleDb and prefix = branchPrefix
          and genfunc = genBranche and J = sampleJson and k = 1 and limit = 3,
          OF exampleDb_branches 2 seeded_one_keys _ _ _ 7]) simp_all
  then show ?thesis using exampleDb_branches 2 seeded_one_keys by blast
qed

text \<open>
  C10. The resume point is the number of records, whatever their keys. A bucket that
  holds at least \<open>limit\<close> records is left as it is. A bucket that holds fewer, \<open>k\<close>, is
  written from the key of \<open>k\<close> on, and then the keys of 0 to \<open>limit - 1\<close> are all there
  afterwards exactly when the \<open>k\<close> records that were there are those of the keys of 0 to
  \<open>k - 1\<close>.
\<close>

theorem fillTable_counts_records:
  "(d p = Some b \<and> limit \<le> int (length (entries b)) \<longrightarrow>
      fillTable J d p limit g = Some (Inr d)) \<and>
   (d p = Some b \<and> distinct (map fst (entries b)) \<and> int (length (entries b)) < limit \<and>
    limit \<le> 2 ^ 63 - 1000 \<and> fillTable J d p limit g = Some (Inr d') \<and> d' p = Some b' \<longrightarrow>
      ((\<forall>i. 0 \<le> i \<and> i < limit \<longrightarrow> map_of (entries b') (keyFor i) \<noteq> None) \<longleftrightarrow>
       fst ` set (entries b) = keyFor ` {0..<int (length (entries b))}))"
proof (intro conjI impI)
  assume "d p = Some b \<and> limit \<le> int (length (entries b))"
  then show "fillTable J d p limit g = Some (Inr d)" by (simp add: fillTable_noop)
next
  let ?k = "int (length (entries b))"
  assume a: "d p = Some b \<and> distinct (map fst (entries b)) \<and> ?k < limit \<and>
    limit \<le> 2 ^ 63 - 1000 \<and> fillTable J d p limit g = Some (Inr d') \<and> d' p = Some b'"
  then have b: "d p = Some b" and dist: "distinct (map fst (entries b))" and k: "?k < limit"
    and lim: "limit \<le> 2 ^ 63 - 1000" and r: "fillTable J d p limit g = Some (Inr d')"
    and b': "d' p = Some b'" by simp_all
  have "fillLoop J p g limit ?k d = Some (Inr d')"
    using r by (simp add: fillTable_unfold [where d = d and p = p, OF b])
  then have w: "written J p g ?k limit d d'"
    by (intro fillLoop_written [where d = d and p = p, OF lim _ b]) simp_all
  have keys': "fst ` set (entries b') = fst ` set (entries b) \<union> keyFor ` {?k..<limit}"
    by (rule written_keys [OF w b b'])
  have dom: "map_of (entries b') key \<noteq> None \<longleftrightarrow> key \<in> fst ` set (entries b')" for key
    by (simp add: map_of_eq_None_iff)
  show "(\<forall>i. 0 \<le> i \<and> i < limit \<longrightarrow> map_of (entries b') (keyFor i) \<noteq> None) \<longleftrightarrow>
        fst ` set (entries b) = keyFor ` {0..<?k}"
  proof
    assume all: "\<forall>i. 0 \<le> i \<and> i < limit \<longrightarrow> map_of (entries b') (keyFor i) \<noteq> None"
    have sub: "keyFor ` {0..<?k} \<subseteq> fst ` set (entries b)"
    proof
      fix key assume "key \<in> keyFor ` {0..<?k}"
      then obtain i where i: "key = keyFor i" "0 \<le> i" "i < ?k" by auto
      then have "key \<in> fst ` set (entries b')" using all k dom by simp
      moreover have "key \<notin> keyFor ` {?k..<limit}" using i by (auto simp: keyFor_inj)
      ultimately show "key \<in> fst ` set (entries b)" using keys' by blast
    qed
    have "card (keyFor ` {0..<?k}) = length (entries b)" by (simp add: keyFor_range_card)
    also have "\<dots> = card (fst ` set (entries b))"
      using distinct_card [OF dist] by simp
    finally have "card (keyFor ` {0..<?k}) = card (fst ` set (entries b))" .
    with sub show "fst ` set (entries b) = keyFor ` {0..<?k}"
      by (intro card_subset_eq [symmetric]) simp_all
  next
    assume dense: "fst ` set (entries b) = keyFor ` {0..<?k}"
    have "{0..<?k} \<union> {?k..<limit} = {0..<limit}" using k by auto
    then have "fst ` set (entries b') = keyFor ` {0..<limit}"
      using keys' dense by (simp add: image_Un [symmetric])
    then show "\<forall>i. 0 \<le> i \<and> i < limit \<longrightarrow> map_of (entries b') (keyFor i) \<noteq> None"
      using dom by simp
  qed
qed

theorem fillTable_counts_records_witness:
  "fillTable sampleJson exampleDbAfter branchPrefix 2 genBranche = Some (Inr exampleDbAfter) \<and>
   fillTable sampleJson exampleDbAfter branchPrefix 3 genBranche = Some (Inr exampleDbReseeded) \<and>
   ((\<forall>i. 0 \<le> i \<and> i < 3 \<longrightarrow>
       map_of [(keyFor 0, sampleMarshal (genBranche 0)),
               (keyFor 2, sampleMarshal (genBranche 2))] (keyFor i) \<noteq> None) \<longleftrightarrow>
    fst ` set [(keyFor 0, sampleMarshal (genBranche 0)),
               (keyFor 2, sampleMarshal (VBranche \<lparr>Branche.BID = 0, Bbalance = 7,
                                   Branche.Filler = []\<rparr>))] = keyFor ` {0..<2})"
proof -
  let ?b = "\<lparr>entries = [(keyFor 0, sampleMarshal (genBranche 0)),
                         (keyFor 2, sampleMarshal (VBranche \<lparr>Branche.BID = 0, Bbalance = 7,
                                          Branche.Filler = []\<rparr>))],
              sequence = 0\<rparr>"
  let ?b' = "\<lparr>entries = [(keyFor 0, sampleMarshal (genBranche 0)),
                          (keyFor 2, sampleMarshal (genBranche 2))],
               sequence = 0\<rparr>"
  have b': "exampleDbReseeded branchPrefix = Some ?b'" by (simp add: exampleDbReseeded_def)
  have d: "distinct (map fst (entries ?b))" by (simp add: keyFor_inj)
  have 1: "fillTable sampleJson exampleDbAfter branchPrefix 2 genBranche = Some (Inr exampleDbAfter)"
    using fillTable_counts_records [where d = exampleDbAfter and p = branchPrefix and b = ?b
        and limit = 2 and J = sampleJson and g = genBranche]
      exampleDbAfter_branches by simp
  have 2: "(\<forall>i. 0 \<le> i \<and> i < 3 \<longrightarrow> map_of (entries ?b') (keyFor i) \<noteq> None) \<longleftrightarrow>
           fst ` set (entries ?b) = keyFor ` {0..<int (length (entries ?b))}"
    using fillTable_counts_records [where d = exampleDbAfter and p = branchPrefix and b = ?b
        and limit = 3 and J = sampleJson and g = genBranche and d' = exampleDbReseeded
        and b' = ?b']
      exampleDbAfter_branches reseed_eval b' d by simp
  show ?thesis using 1 2 reseed_eval by simp
qed

section \<open>Transactions: what a committed step did\<close>

lemma prefix_distinct:
  "accountPrefix \<noteq> tellerPrefix" "accountPrefix \<noteq> branchPrefix" "accountPrefix \<noteq> historyPrefix"
  "tellerPrefix \<noteq> branchPrefix" "tellerPrefix \<noteq> historyPrefix" "branchPrefix \<noteq> historyPrefix"
  "tellerPrefix \<noteq> accountPrefix" "branchPrefix \<noteq> accountPrefix" "historyPrefix \<noteq> accountPrefix"
  "branchPrefix \<noteq> tellerPrefix" "historyPrefix \<noteq> tellerPrefix" "historyPrefix \<noteq> branchPrefix"
  by (simp_all add: prefix_defs)

lemma andThen_Inr: "andThen r f = Inr y \<longleftrightarrow> (\<exists>x. r = Inr x \<and> f x = Inr y)"
  by (cases r) (simp_all add: andThen_def)

lemma Bucket_Get_Inr:
  "Bucket_Get txn n k = Inr r \<longleftrightarrow> (\<exists>b. txn n = Some b \<and> r = map_of (entries b) k)"
  by (auto simp: Bucket_Get_def split: option.splits)

lemma Bucket_Put_Inr:
  "Bucket_Put txn n k v = Inr txn' \<longleftrightarrow>
     (\<exists>b. txn n = Some b \<and> txn' = txn(n \<mapsto> b\<lparr>entries := AList.update k v (entries b)\<rparr>))"
  by (auto simp: Bucket_Put_def split: option.splits)

lemma updateAccount_Inr:
  assumes "updateAccount J aid adelta txn = Inr txn'"
  shows "\<exists>b bs acc v. txn accountPrefix = Some b \<and> map_of (entries b) (keyFor aid) = Some bs \<and>
           UnmarshalAccount J bs = Some acc \<and>
           Marshal J (VAccount (acc\<lparr>Abalance := wrap64 (Abalance acc + adelta)\<rparr>)) = Some v \<and>
           txn' = txn(accountPrefix \<mapsto> b\<lparr>entries := AList.update (keyFor aid) v (entries b)\<rparr>)"
proof -
  from assms obtain accVal where g: "Bucket_Get txn accountPrefix (keyFor aid) = Inr accVal"
    and r: "(case accVal of None \<Rightarrow> Inl (Panic ''account not found for key'')
             | Some bs \<Rightarrow> (case UnmarshalAccount J bs of None \<Rightarrow> Inl JsonError
                | Some acc \<Rightarrow> andThen (valueFor J (VAccount (acc\<lparr>Abalance := wrap64 (Abalance acc + adelta)\<rparr>)))
                    (\<lambda>v. Bucket_Put txn accountPrefix (keyFor aid) v))) = Inr txn'"
    unfolding updateAccount_def andThen_Inr by blast
  from g obtain b where b: "txn accountPrefix = Some b" "accVal = map_of (entries b) (keyFor aid)"
    unfolding Bucket_Get_Inr by blast
  from r obtain bs where bs: "accVal = Some bs" by (cases accVal) simp_all
  from r bs obtain acc where acc: "UnmarshalAccount J bs = Some acc"
    by (cases "UnmarshalAccount J bs") simp_all
  from r bs acc obtain v where v: "valueFor J (VAccount (acc\<lparr>Abalance := wrap64 (Abalance acc + adelta)\<rparr>)) = Inr v"
    and p: "Bucket_Put txn accountPrefix (keyFor aid) v = Inr txn'"
    by (simp add: andThen_Inr) blast
  from p b(1) have eq: "txn' = txn(accountPrefix \<mapsto> b\<lparr>entries := AList.update (keyFor aid) v (entries b)\<rparr>)"
    by (simp add: Bucket_Put_Inr)
  have m: "map_of (entries b) (keyFor aid) = Some bs" using b(2) bs by simp
  note mv = v [unfolded valueFor_Inr]
  show ?thesis by (intro exI conjI) (rule b(1) m acc mv eq)+
qed

lemma updateTeller_Inr:
  assumes "updateTeller J tid adelta txn = Inr txn'"
  shows "\<exists>b bs teller v. txn tellerPrefix = Some b \<and> map_of (entries b) (keyFor tid) = Some bs \<and>
           UnmarshalTeller J bs = Some teller \<and>
           Marshal J (VTeller (teller\<lparr>Tbalance := wrap64 (Tbalance teller + adelta)\<rparr>)) = Some v \<and>
           txn' = txn(tellerPrefix \<mapsto> b\<lparr>entries := AList.update (keyFor tid) v (entries b)\<rparr>)"
proof -
  from assms obtain tellerVal where g: "Bucket_Get txn tellerPrefix (keyFor tid) = Inr tellerVal"
    and r: "(case tellerVal of None \<Rightarrow> Inl (Panic ''teller not found for key'')
             | Some bs \<Rightarrow> (case UnmarshalTeller J bs of None \<Rightarrow> Inl JsonError
                | Some teller \<Rightarrow> andThen (valueFor J (VTeller (teller\<lparr>Tbalance := wrap64 (Tbalance teller + adelta)\<rparr>)))
                    (\<lambda>v. Bucket_Put txn tellerPrefix (keyFor tid) v))) = Inr txn'"
    unfolding updateTeller_def andThen_Inr by blast
  from g obtain b where b: "txn tellerPrefix = Some b" "tellerVal = map_of (entries b) (keyFor tid)"
    unfolding Bucket_Get_Inr by blast
  from r obtain bs where bs: "tellerVal = Some bs" by (cases tellerVal) simp_all
  from r bs obtain teller where teller: "UnmarshalTeller J bs = Some teller"
    by (cases "UnmarshalTeller J bs") simp_all
  from r bs teller obtain v where v: "valueFor J (VTeller (teller\<lparr>Tbalance := wrap64 (Tbalance teller + adelta)\<rparr>)) = Inr v"
    and p: "Bucket_Put txn tellerPrefix (keyFor tid) v = Inr txn'"
    by (simp add: andThen_Inr) blast
  from p b(1) have eq: "txn' = txn(tellerPrefix \<mapsto> b\<lparr>entries := AList.update (keyFor tid) v (entries b)\<rparr>)"
    by (simp add: Bucket_Put_Inr)
  have m: "map_of (entries b) (keyFor tid) = Some bs" using b(2) bs by simp
  note mv = v [unfolded valueFor_Inr]
  show ?thesis by (intro exI conjI) (rule b(1) m teller mv eq)+
qed

lemma updateBranch_Inr:
  assumes "updateBranch J tid bid adelta txn = Inr txn'"
  shows "\<exists>b bs branch v. txn branchPrefix = Some b \<and> map_of (entries b) (keyFor bid) = Some bs \<and>
           UnmarshalBranche J bs = Some branch \<and>
           Marshal J (VBranche (branch\<lparr>Bbalance := wrap64 (Bbalance branch + adelta)\<rparr>)) = Some v \<and>
           txn' = txn(branchPrefix \<mapsto> b\<lparr>entries := AList.update (keyFor tid) v (entries b)\<rparr>)"
proof -
  from assms obtain branchVal where g: "Bucket_Get txn branchPrefix (keyFor bid) = Inr branchVal"
    and r: "(case branchVal of None \<Rightarrow> Inl (Panic ''branch not found for key'')
             | Some bs \<Rightarrow> (case UnmarshalBranche J bs of None \<Rightarrow> Inl JsonError
                | Some branch \<Rightarrow> andThen (valueFor J (VBranche (branch\<lparr>Bbalance := wrap64 (Bbalance branch + adelta)\<rparr>)))
                    (\<lambda>v. Bucket_Put txn branchPrefix (keyFor tid) v))) = Inr txn'"
    unfolding updateBranch_def andThen_Inr by blast
  from g obtain b where b: "txn branchPrefix = Some b" "branchVal = map_of (entries b) (keyFor bid)"
    unfolding Bucket_Get_Inr by blast
  from r obtain bs where bs: "branchVal = Some bs" by (cases branchVal) simp_all
  from r bs obtain branch where branch: "UnmarshalBranche J bs = Some branch"
    by (cases "UnmarshalBranche J bs") simp_all
  from r bs branch obtain v where v: "valueFor J (VBranche (branch\<lparr>Bbalance := wrap64 (Bbalance branch + adelta)\<rparr>)) = Inr v"
    and p: "Bucket_Put txn branchPrefix (keyFor tid) v = Inr txn'"
    by (simp add: andThen_Inr) blast
  from p b(1) have eq: "txn' = txn(branchPrefix \<mapsto> b\<lparr>entries := AList.update (keyFor tid) v (entries b)\<rparr>)"
    by (simp add: Bucket_Put_Inr)
  have m: "map_of (entries b) (keyFor bid) = Some bs" using b(2) bs by simp
  note mv = v [unfolded valueFor_Inr]
  show ?thesis by (intro exI conjI) (rule b(1) m branch mv eq)+
qed

lemma insertHistory_Inr:
  assumes "insertHistory J aid tid bid adelta now txn = Inr txn'"
  shows "\<exists>h v. txn historyPrefix = Some h \<and>
           Marshal J (VHistory \<lparr>History.TID = tid, History.BID = bid, History.AID = aid,
                                 Delta = adelta, Mtime = now, History.Filler = []\<rparr>) = Some v \<and>
           txn' = txn(historyPrefix \<mapsto>
                    h\<lparr>sequence := wrapU64 (sequence h + 1),
                      entries := AList.update (keyFor (wrap64 (wrapU64 (sequence h + 1)))) v (entries h)\<rparr>)"
proof -
  from assms obtain s txn1 v where n: "Bucket_NextSequence txn historyPrefix = Inr (s, txn1)"
    and v: "valueFor J (VHistory \<lparr>History.TID = tid, History.BID = bid, History.AID = aid,
                                 Delta = adelta, Mtime = now, History.Filler = []\<rparr>) = Inr v"
    and p: "Bucket_Put txn1 historyPrefix (keyFor (wrap64 s)) v = Inr txn'"
    by (auto simp: insertHistory_def andThen_def split: sum.splits prod.splits)
  from n obtain h where h: "txn historyPrefix = Some h" "s = wrapU64 (sequence h + 1)"
    "txn1 = txn(historyPrefix \<mapsto> h\<lparr>sequence := wrapU64 (sequence h + 1)\<rparr>)"
    by (auto simp: Bucket_NextSequence_def Let_def split: option.splits)
  from p h have "txn' = txn(historyPrefix \<mapsto>
                    h\<lparr>sequence := wrapU64 (sequence h + 1),
                      entries := AList.update (keyFor (wrap64 (wrapU64 (sequence h + 1)))) v (entries h)\<rparr>)"
    by (simp add: Bucket_Put_Inr)
  then show ?thesis using h(1) v by (simp add: valueFor_Inr)
qed

lemma readWrite_Inr:
  assumes "readWrite J scale rnd now d = Inr d'"
  shows "\<exists>aid tid bid adelta txn1 txn2 txn3.
           readWrite_params scale rnd = Inr (aid, tid, bid, adelta) \<and>
           updateAccount J aid adelta d = Inr txn1 \<and>
           updateTeller J tid adelta txn1 = Inr txn2 \<and>
           updateBranch J tid bid adelta txn2 = Inr txn3 \<and>
           insertHistory J aid tid bid adelta now txn3 = Inr d'"
proof -
  from assms obtain aid tid bid adelta where p: "readWrite_params scale rnd = Inr (aid, tid, bid, adelta)"
    and t: "readWrite_txn J aid tid bid adelta now d = Inr ((), d')"
    by (auto simp: readWrite_def andThen_def Update_def split: sum.splits prod.splits)
  from t have "readWrite_txn J aid tid bid adelta now d = Inr ((), d')" .
  then obtain txn1 txn2 txn3 where "updateAccount J aid adelta d = Inr txn1"
    "updateTeller J tid adelta txn1 = Inr txn2" "updateBranch J tid bid adelta txn2 = Inr txn3"
    "insertHistory J aid tid bid adelta now txn3 = Inr d'"
    unfolding readWrite_txn_def andThen_Inr by auto
  with p show ?thesis by blast
qed




lemma update_fresh: "k \<notin> fst ` set al \<Longrightarrow> AList.update k v al = al @ [(k, v)]"
  by (induction al) auto

lemma wrap64_inj_unsigned:
  assumes "0 \<le> x" "x < 2 ^ 64" "0 \<le> y" "y < 2 ^ 64" "wrap64 x = wrap64 y"
  shows "x = y"
proof -
  from assms(5) have "(x + 2 ^ 63) mod 2 ^ 64 = (y + 2 ^ 63) mod 2 ^ 64"
    by (simp add: wrap64_def)
  then have "(x + 2 ^ 63 - 2 ^ 63) mod 2 ^ 64 = (y + 2 ^ 63 - 2 ^ 63) mod 2 ^ 64"
    by (rule mod_diff_cong) simp
  then have "x mod 2 ^ 64 = y mod 2 ^ 64" by simp
  then show ?thesis using assms(1-4) by simp
qed

lemma historySound_fresh:
  assumes "historySound h" and "sequence h + 1 < 2 ^ 64"
  shows "keyFor (wrap64 (sequence h + 1)) \<notin> fst ` set (entries h)"
proof
  assume k: "keyFor (wrap64 (sequence h + 1)) \<in> fst ` set (entries h)"
  have sub: "fst ` set (entries h) \<subseteq> (\<lambda>s. keyFor (wrap64 s)) ` {1..sequence h}"
    using assms(1) by (simp add: historySound_def)
  have b: "0 \<le> sequence h" "sequence h < 2 ^ 64"
    using assms(1) by (simp_all add: historySound_def)
  from sub k have "keyFor (wrap64 (sequence h + 1)) \<in> (\<lambda>s. keyFor (wrap64 s)) ` {1..sequence h}"
    by (rule subsetD)
  then obtain s where e: "keyFor (wrap64 (sequence h + 1)) = keyFor (wrap64 s)"
    and s1: "s \<in> {1..sequence h}" by (rule imageE)
  from e have w: "wrap64 (sequence h + 1) = wrap64 s" by (simp only: keyFor_inj)
  from s1 have s: "1 \<le> s" "s \<le> sequence h" by simp_all
  have "sequence h + 1 = s"
  proof (rule wrap64_inj_unsigned [OF _ _ _ _ w])
    show "0 \<le> sequence h + 1" using b(1) by simp
    show "sequence h + 1 < 2 ^ 64" by (rule assms(2))
    show "0 \<le> s" using s(1) by simp
    show "s < 2 ^ 64" using s(2) b(2) by simp
  qed
  with s(2) show False by simp
qed

lemma historySound_append:
  assumes "historySound h" and "sequence h + 1 < 2 ^ 64"
  shows "historySound (h\<lparr>sequence := sequence h + 1,
           entries := entries h @ [(keyFor (wrap64 (sequence h + 1)), v)]\<rparr>)"
proof -
  have f: "keyFor (wrap64 (sequence h + 1)) \<notin> fst ` set (entries h)"
    by (rule historySound_fresh [OF assms])
  have "fst ` set (entries h) \<subseteq> (\<lambda>s. keyFor (wrap64 s)) ` {1..sequence h}"
    using assms(1) by (simp add: historySound_def)
  also have "\<dots> \<subseteq> (\<lambda>s. keyFor (wrap64 s)) ` {1..sequence h + 1}"
    by (intro image_mono) simp
  finally have sub: "fst ` set (entries h) \<subseteq> (\<lambda>s. keyFor (wrap64 s)) ` {1..sequence h + 1}" .
  have "0 \<le> sequence h" using assms(1) by (simp add: historySound_def)
  then have "keyFor (wrap64 (sequence h + 1)) \<in> (\<lambda>s. keyFor (wrap64 s)) ` {1..sequence h + 1}"
    by (intro imageI) simp
  with sub f assms show ?thesis by (simp add: historySound_def)
qed

lemma readWrite_history:
  assumes rw: "readWrite J scale rnd now d = Inr d'"
    and h: "d historyPrefix = Some h"
    and sound: "historySound h" and room: "sequence h + 1 < 2 ^ 64"
  shows "\<exists>aid tid bid adelta v.
           readWrite_params scale rnd = Inr (aid, tid, bid, adelta) \<and>
           Marshal J (VHistory \<lparr>History.TID = tid, History.BID = bid, History.AID = aid,
                                 Delta = adelta, Mtime = now, History.Filler = []\<rparr>) = Some v \<and>
           d' historyPrefix = Some (h\<lparr>sequence := sequence h + 1,
              entries := entries h @ [(keyFor (wrap64 (sequence h + 1)), v)]\<rparr>)"
proof -
  from readWrite_Inr [OF rw] obtain aid tid bid adelta txn1 txn2 txn3 where
    p: "readWrite_params scale rnd = Inr (aid, tid, bid, adelta)"
    and 1: "updateAccount J aid adelta d = Inr txn1"
    and 2: "updateTeller J tid adelta txn1 = Inr txn2"
    and 3: "updateBranch J tid bid adelta txn2 = Inr txn3"
    and 4: "insertHistory J aid tid bid adelta now txn3 = Inr d'" by blast
  have h1: "txn1 historyPrefix = Some h"
    using updateAccount_Inr [OF 1] h by (auto simp: prefix_distinct)
  have h2: "txn2 historyPrefix = Some h"
    using updateTeller_Inr [OF 2] h1 by (auto simp: prefix_distinct)
  have h3: "txn3 historyPrefix = Some h"
    using updateBranch_Inr [OF 3] h2 by (auto simp: prefix_distinct)
  from insertHistory_Inr [OF 4] h3 obtain v where
    v: "Marshal J (VHistory \<lparr>History.TID = tid, History.BID = bid, History.AID = aid,
                                 Delta = adelta, Mtime = now, History.Filler = []\<rparr>) = Some v"
    and d': "d' = txn3(historyPrefix \<mapsto> h\<lparr>sequence := wrapU64 (sequence h + 1),
               entries := AList.update (keyFor (wrap64 (wrapU64 (sequence h + 1)))) v (entries h)\<rparr>)"
    by auto
  have "0 \<le> sequence h" using sound by (simp add: historySound_def)
  then have u: "wrapU64 (sequence h + 1) = sequence h + 1" using room by (simp add: wrapU64_def)
  have "d' historyPrefix = Some (h\<lparr>sequence := sequence h + 1,
              entries := entries h @ [(keyFor (wrap64 (sequence h + 1)), v)]\<rparr>)"
    using d' u update_fresh [OF historySound_fresh [OF sound room]] by simp
  with p v show ?thesis by blast
qed

lemma readWrite_account_teller:
  assumes rw: "readWrite J scale rnd now d = Inr d'"
    and p: "readWrite_params scale rnd = Inr (aid, tid, bid, adelta)"
  shows "\<exists>bs acc. Bucket_Get d accountPrefix (keyFor aid) = Inr (Some bs) \<and>
            UnmarshalAccount J bs = Some acc \<and>
            Bucket_Get d' accountPrefix (keyFor aid) =
              Inr (Marshal J (VAccount (acc\<lparr>Abalance := wrap64 (Abalance acc + adelta)\<rparr>)))"
    and "\<exists>bs teller. Bucket_Get d tellerPrefix (keyFor tid) = Inr (Some bs) \<and>
            UnmarshalTeller J bs = Some teller \<and>
            Bucket_Get d' tellerPrefix (keyFor tid) =
              Inr (Marshal J (VTeller (teller\<lparr>Tbalance := wrap64 (Tbalance teller + adelta)\<rparr>)))"
proof -
  from readWrite_Inr [OF rw] p obtain txn1 txn2 txn3 where
    1: "updateAccount J aid adelta d = Inr txn1"
    and 2: "updateTeller J tid adelta txn1 = Inr txn2"
    and 3: "updateBranch J tid bid adelta txn2 = Inr txn3"
    and 4: "insertHistory J aid tid bid adelta now txn3 = Inr d'" by auto
  from updateAccount_Inr [OF 1] obtain a bs acc v where
    a: "d accountPrefix = Some a" and bs: "map_of (entries a) (keyFor aid) = Some bs"
    and acc: "UnmarshalAccount J bs = Some acc"
    and v: "Marshal J (VAccount (acc\<lparr>Abalance := wrap64 (Abalance acc + adelta)\<rparr>)) = Some v"
    and t1: "txn1 = d(accountPrefix \<mapsto> a\<lparr>entries := AList.update (keyFor aid) v (entries a)\<rparr>)"
    by blast
  from updateTeller_Inr [OF 2] obtain t ts teller w where
    t: "txn1 tellerPrefix = Some t" and ts: "map_of (entries t) (keyFor tid) = Some ts"
    and tel: "UnmarshalTeller J ts = Some teller"
    and w: "Marshal J (VTeller (teller\<lparr>Tbalance := wrap64 (Tbalance teller + adelta)\<rparr>)) = Some w"
    and t2: "txn2 = txn1(tellerPrefix \<mapsto> t\<lparr>entries := AList.update (keyFor tid) w (entries t)\<rparr>)"
    by blast
  have a2: "txn2 accountPrefix = Some (a\<lparr>entries := AList.update (keyFor aid) v (entries a)\<rparr>)"
    using t1 t2 by (simp add: prefix_distinct)
  have a3: "txn3 accountPrefix = txn2 accountPrefix" and tl3: "txn3 tellerPrefix = txn2 tellerPrefix"
    using updateBranch_Inr [OF 3] by (auto simp: prefix_distinct)
  have a4: "d' accountPrefix = txn3 accountPrefix" and tl4: "d' tellerPrefix = txn3 tellerPrefix"
    using insertHistory_Inr [OF 4] by (auto simp: prefix_distinct)
  have t0: "d tellerPrefix = Some t" using t t1 by (simp add: prefix_distinct)
  have g0: "Bucket_Get d accountPrefix (keyFor aid) = Inr (Some bs)"
    using a bs by (simp add: Bucket_Get_def)
  have g1: "Bucket_Get d' accountPrefix (keyFor aid) =
              Inr (Marshal J (VAccount (acc\<lparr>Abalance := wrap64 (Abalance acc + adelta)\<rparr>)))"
    using a4 a3 a2 v by (simp add: Bucket_Get_def update_conv')
  show "\<exists>bs acc. Bucket_Get d accountPrefix (keyFor aid) = Inr (Some bs) \<and>
            UnmarshalAccount J bs = Some acc \<and>
            Bucket_Get d' accountPrefix (keyFor aid) =
              Inr (Marshal J (VAccount (acc\<lparr>Abalance := wrap64 (Abalance acc + adelta)\<rparr>)))"
    by (intro exI conjI) (rule g0 acc g1)+
  have h0: "Bucket_Get d tellerPrefix (keyFor tid) = Inr (Some ts)"
    using t0 ts by (simp add: Bucket_Get_def)
  have h1: "Bucket_Get d' tellerPrefix (keyFor tid) =
              Inr (Marshal J (VTeller (teller\<lparr>Tbalance := wrap64 (Tbalance teller + adelta)\<rparr>)))"
    using tl4 tl3 t2 w by (simp add: Bucket_Get_def update_conv')
  show "\<exists>bs teller. Bucket_Get d tellerPrefix (keyFor tid) = Inr (Some bs) \<and>
            UnmarshalTeller J bs = Some teller \<and>
            Bucket_Get d' tellerPrefix (keyFor tid) =
              Inr (Marshal J (VTeller (teller\<lparr>Tbalance := wrap64 (Tbalance teller + adelta)\<rparr>)))"
    by (intro exI conjI) (rule h0 tel h1)+
qed



section \<open>Evaluation of the closed transactions\<close>

lemma params_eval: "readWrite_params 1 (0, 2, 0, 5007) = Inr (0, 2, 0, 7)"
  by (simp add: readWrite_params_def IntN_def Int64N_def andThen_def wrap64_small)


lemma rw_eval: "readWrite sampleJson 1 (0, 2, 0, 5007) 42 exampleDb = Inr exampleDbAfter"
  unfolding readWrite_def readWrite_txn_def updateAccount_def updateTeller_def updateBranch_def
    insertHistory_def Update_def
  apply (simp add: params_eval andThen_def wrap64_small wrapU64_def Bucket_Get_def
      Bucket_Put_def Bucket_NextSequence_def exampleDb_def seeded_def prefix_defs codec_eval)
  apply (rule ext)
  apply (simp add: exampleDbAfter_def prefix_defs codec_eval)
  done

lemma empty_history_sound: "historySound \<lparr>entries = [], sequence = 0\<rparr>"
  by (simp add: historySound_def)

lemma exampleDb_history: "exampleDb historyPrefix = Some \<lparr>entries = [], sequence = 0\<rparr>"
  by (simp add: exampleDb_def prefix_defs)

lemma run_eval: "runReadWrite sampleJson 1 [((0, 2, 0, 5007), 42)] exampleDb = Inr exampleDbAfter"
  by (simp add: rw_eval andThen_def)

lemma IntN_eval: "IntN (wrap64 (1 * 100000)) 0 = Inr 0" "IntN (wrap64 (1 * 100000)) 5 = Inr 5"
  by (simp_all add: IntN_def wrap64_small)

lemma exampleDb_accounts: "exampleDb accountPrefix = Some (seeded genAccount [0, 1])"
  by (simp add: exampleDb_def prefix_defs)

section \<open>Transactions: the claims\<close>

text \<open>
  C1. The claim does not hold of the code for the branch. When \<open>readWrite\<close> commits
  and the teller id it drew differs from the branch id, the record under the key of the
  branch id is the one that was there before the transaction, whatever the delta: the
  record with the new balance is put under the key of the teller id, in the branches
  bucket.
\<close>

theorem readWrite_branch_key:
  assumes rw: "readWrite J scale rnd now d = Inr d'"
    and p: "readWrite_params scale rnd = Inr (aid, tid, bid, adelta)"
    and ne: "tid \<noteq> bid"
  shows "Bucket_Get d' branchPrefix (keyFor bid) = Bucket_Get d branchPrefix (keyFor bid) \<and>
         (\<exists>bs branch. Bucket_Get d branchPrefix (keyFor bid) = Inr (Some bs) \<and>
            UnmarshalBranche J bs = Some branch \<and>
            Bucket_Get d' branchPrefix (keyFor tid) =
              Inr (Marshal J (VBranche (branch\<lparr>Bbalance := wrap64 (Bbalance branch + adelta)\<rparr>))))"
proof -
  from readWrite_Inr [OF rw] p obtain txn1 txn2 txn3 where
    1: "updateAccount J aid adelta d = Inr txn1"
    and 2: "updateTeller J tid adelta txn1 = Inr txn2"
    and 3: "updateBranch J tid bid adelta txn2 = Inr txn3"
    and 4: "insertHistory J aid tid bid adelta now txn3 = Inr d'" by auto
  have b1: "txn1 branchPrefix = d branchPrefix"
    using updateAccount_Inr [OF 1] by (auto simp: prefix_distinct)
  have b2: "txn2 branchPrefix = d branchPrefix"
    using updateTeller_Inr [OF 2] b1 by (auto simp: prefix_distinct)
  from updateBranch_Inr [OF 3] b2 obtain b bs branch v where
    b: "d branchPrefix = Some b" and bs: "map_of (entries b) (keyFor bid) = Some bs"
    and br: "UnmarshalBranche J bs = Some branch"
    and v: "Marshal J (VBranche (branch\<lparr>Bbalance := wrap64 (Bbalance branch + adelta)\<rparr>)) = Some v"
    and t3: "txn3 = txn2(branchPrefix \<mapsto> b\<lparr>entries := AList.update (keyFor tid) v (entries b)\<rparr>)"
    by auto
  have b4: "d' branchPrefix = Some (b\<lparr>entries := AList.update (keyFor tid) v (entries b)\<rparr>)"
    using insertHistory_Inr [OF 4] t3 by (auto simp: prefix_distinct)
  have g0: "Bucket_Get d branchPrefix (keyFor bid) = Inr (Some bs)"
    using b bs by (simp add: Bucket_Get_def)
  have g1: "Bucket_Get d' branchPrefix (keyFor bid) = Inr (Some bs)"
    using b4 bs ne by (simp add: Bucket_Get_def update_conv' keyFor_inj)
  have g2: "Bucket_Get d' branchPrefix (keyFor tid) =
              Inr (Marshal J (VBranche (branch\<lparr>Bbalance := wrap64 (Bbalance branch + adelta)\<rparr>)))"
    using b4 v by (simp add: Bucket_Get_def update_conv')
  from g0 g1 have "Bucket_Get d' branchPrefix (keyFor bid) = Bucket_Get d branchPrefix (keyFor bid)"
    by simp
  moreover have "\<exists>bs branch. Bucket_Get d branchPrefix (keyFor bid) = Inr (Some bs) \<and>
            UnmarshalBranche J bs = Some branch \<and>
            Bucket_Get d' branchPrefix (keyFor tid) =
              Inr (Marshal J (VBranche (branch\<lparr>Bbalance := wrap64 (Bbalance branch + adelta)\<rparr>)))"
    by (intro exI conjI) (rule g0 br g2)+
  ultimately show ?thesis by (rule conjI)
qed

theorem readWrite_branch_key_witness:
  "readWrite sampleJson 1 (0, 2, 0, 5007) 42 exampleDb = Inr exampleDbAfter \<and>
   readWrite_params 1 (0, 2, 0, 5007) = Inr (0, 2, 0, 7) \<and>
   Bucket_Get exampleDbAfter branchPrefix (keyFor 0) = Bucket_Get exampleDb branchPrefix (keyFor 0) \<and>
   (\<exists>bs branch. Bucket_Get exampleDb branchPrefix (keyFor 0) = Inr (Some bs) \<and>
      UnmarshalBranche sampleJson bs = Some branch \<and>
      Bucket_Get exampleDbAfter branchPrefix (keyFor 2) =
        Inr (Marshal sampleJson (VBranche (branch\<lparr>Bbalance := wrap64 (Bbalance branch + 7)\<rparr>))))"
proof -
  have ne: "(2::int) \<noteq> 0" by simp
  note main = readWrite_branch_key [OF rw_eval params_eval ne]
  show ?thesis by (intro conjI) (rule rw_eval params_eval main [THEN conjunct1] main [THEN conjunct2])+
qed

text \<open>
  C5. Every committed \<open>readWrite\<close> appends one history record under the next sequence
  number. For a run of calls that all commit, from a sound history bucket whose counter
  stays below \<open>2 ^ 64\<close>: the records that were there are all still there, unchanged and
  in place; one record per call follows them, the keys of the new records being those of
  the sequence numbers after the old counter, in increasing order; the keys are distinct
  (the bucket is sound again); so the number of records has grown by the number of
  calls.
\<close>

theorem runReadWrite_history:
  assumes "runReadWrite J scale ops d = Inr d'"
    and "d historyPrefix = Some h"
    and "historySound h"
    and "sequence h + int (length ops) < 2 ^ 64"
  shows "\<exists>h' new. d' historyPrefix = Some h' \<and> historySound h' \<and>
           sequence h' = sequence h + int (length ops) \<and>
           entries h' = entries h @ new \<and> length new = length ops \<and>
           map fst new = map (\<lambda>s. keyFor (wrap64 s))
                             [sequence h + 1..sequence h + int (length ops)]"
  using assms
proof (induction ops arbitrary: d h)
  case Nil
  then show ?case by simp
next
  case (Cons op ops)
  from Cons.prems(1) obtain d1 where 1: "readWrite J scale (fst op) (snd op) d = Inr d1"
    and r: "runReadWrite J scale ops d1 = Inr d'"
    by (auto simp: andThen_Inr)
  have room: "sequence h + 1 < 2 ^ 64" using Cons.prems(4) by simp
  let ?k = "keyFor (wrap64 (sequence h + 1))"
  from readWrite_history [OF 1 Cons.prems(2,3) room] obtain v where
    h1: "d1 historyPrefix = Some (h\<lparr>sequence := sequence h + 1,
              entries := entries h @ [(?k, v)]\<rparr>)" by blast
  let ?h1 = "h\<lparr>sequence := sequence h + 1, entries := entries h @ [(?k, v)]\<rparr>"
  have s1: "historySound ?h1" by (rule historySound_append [OF Cons.prems(3) room])
  have room1: "sequence ?h1 + int (length ops) < 2 ^ 64" using Cons.prems(4) by simp
  from Cons.IH [OF r h1 s1 room1] obtain h' new where
    n: "d' historyPrefix = Some h'" "historySound h'"
      "sequence h' = sequence ?h1 + int (length ops)"
      "entries h' = entries ?h1 @ new" "length new = length ops"
      "map fst new = map (\<lambda>s. keyFor (wrap64 s))
                             [sequence ?h1 + 1..sequence ?h1 + int (length ops)]"
    by blast
  have up: "[sequence h + 1..sequence h + int (length (op # ops))]
              = (sequence h + 1) # [sequence h + 1 + 1..sequence h + 1 + int (length ops)]"
    by (subst upto_rec1) (simp_all add: add.commute add.left_commute)
  have a: "sequence h' = sequence h + int (length (op # ops))" using n(3) by simp
  have b: "entries h' = entries h @ ((?k, v) # new)" using n(4) by simp
  have c: "length ((?k, v) # new) = length (op # ops)" using n(5) by simp
  have n6: "map fst new = map (\<lambda>s. keyFor (wrap64 s))
                             [sequence h + 1 + 1..sequence h + 1 + int (length ops)]"
    using n(6) by simp
  have "map fst ((?k, v) # new) = ?k # map fst new" by simp
  also have "\<dots> = map (\<lambda>s. keyFor (wrap64 s))
                      ((sequence h + 1) # [sequence h + 1 + 1..sequence h + 1 + int (length ops)])"
    by (simp only: n6 list.map)
  finally have e: "map fst ((?k, v) # new) = map (\<lambda>s. keyFor (wrap64 s))
                             [sequence h + 1..sequence h + int (length (op # ops))]"
    by (simp only: up)
  show ?case by (intro exI conjI) (rule n(1) n(2) a b c e)+
qed

theorem runReadWrite_history_witness:
  "runReadWrite sampleJson 1 [((0, 2, 0, 5007), 42)] exampleDb = Inr exampleDbAfter \<and>
   exampleDb historyPrefix = Some \<lparr>entries = [], sequence = 0\<rparr> \<and>
   historySound \<lparr>entries = [], sequence = 0\<rparr> \<and>
   (\<exists>h' new. exampleDbAfter historyPrefix = Some h' \<and> historySound h' \<and>
      sequence h' = 0 + int (length [((0::int, 2::int, 0::int, 5007::int), 42::int)]) \<and>
      entries h' = [] @ new \<and> length new = length [((0::int, 2::int, 0::int, 5007::int), 42::int)] \<and>
      map fst new = map (\<lambda>s. keyFor (wrap64 s))
                      [0 + 1..0 + int (length [((0::int, 2::int, 0::int, 5007::int), 42::int)])])"
proof -
  have room: "sequence \<lparr>entries = [], sequence = 0\<rparr>
                + int (length [((0::int, 2::int, 0::int, 5007::int), 42::int)]) < 2 ^ 64" by simp
  note main = runReadWrite_history [OF run_eval exampleDb_history empty_history_sound room]
  have "\<exists>h' new. exampleDbAfter historyPrefix = Some h' \<and> historySound h' \<and>
      sequence h' = 0 + int (length [((0::int, 2::int, 0::int, 5007::int), 42::int)]) \<and>
      entries h' = [] @ new \<and> length new = length [((0::int, 2::int, 0::int, 5007::int), 42::int)] \<and>
      map fst new = map (\<lambda>s. keyFor (wrap64 s))
                      [0 + 1..0 + int (length [((0::int, 2::int, 0::int, 5007::int), 42::int)])]"
    using main by (simp only: bucket.simps)
  then show ?thesis by (intro conjI) (rule run_eval exampleDb_history empty_history_sound)+
qed



text \<open>
  C9. \<open>read\<close> on the account id it drew: it panics with the account-not-found message
  when the key is absent, returns when the record is there and can be decoded, and
  whenever it returns the database is the one it was called on (the transaction is a
  \<open>db.View\<close>, its body makes no \<open>Put\<close>).
\<close>

theorem read_only:
  assumes "IntN (wrap64 (scale * 100000)) r1 = Inr aid"
  shows "(Bucket_Get d accountPrefix (keyFor aid) = Inr None \<longrightarrow>
            read J scale r1 d = Inl (Panic ''account not found for key'')) \<and>
         (\<forall>bs acc. Bucket_Get d accountPrefix (keyFor aid) = Inr (Some bs) \<and>
            UnmarshalAccount J bs = Some acc \<longrightarrow> read J scale r1 d = Inr d) \<and>
         (\<forall>d'. read J scale r1 d = Inr d' \<longrightarrow> d' = d)"
proof -
  have r: "read J scale r1 d = andThen (View d (read_txn J aid)) (\<lambda>(u, d'). Inr d')"
    using assms by (simp add: read_def andThen_def)
  have 1: "read J scale r1 d = Inl (Panic ''account not found for key'')"
    if "Bucket_Get d accountPrefix (keyFor aid) = Inr None"
    using that by (simp add: r View_def read_txn_def andThen_def)
  have 2: "read J scale r1 d = Inr d"
    if "Bucket_Get d accountPrefix (keyFor aid) = Inr (Some bs)" "UnmarshalAccount J bs = Some acc"
    for bs acc
    using that by (simp add: r View_def read_txn_def andThen_def)
  have 3: "d' = d" if "read J scale r1 d = Inr d'" for d'
    using that by (auto simp: r View_def andThen_def split: sum.splits)
  from 1 2 3 show ?thesis by blast
qed

theorem read_only_witness:
  "IntN (wrap64 (1 * 100000)) 0 = Inr 0 \<and> IntN (wrap64 (1 * 100000)) 5 = Inr 5 \<and>
   read sampleJson 1 0 exampleDb = Inr exampleDb \<and>
   read sampleJson 1 5 exampleDb = Inl (Panic ''account not found for key'')"
proof -
  have g0: "Bucket_Get exampleDb accountPrefix (keyFor 0) = Inr (Some (sampleMarshal (genAccount 0)))"
    by (simp add: Bucket_Get_def exampleDb_accounts seeded_def keyFor_inj)
  have u0: "UnmarshalAccount sampleJson (sampleMarshal (genAccount 0)) =
              Some \<lparr>Account.AID = 0, Account.BID = 0, Abalance = 0, Account.Filler = []\<rparr>"
    by (simp add: codec_eval)
  have g5: "Bucket_Get exampleDb accountPrefix (keyFor 5) = Inr None"
    by (simp add: Bucket_Get_def exampleDb_accounts seeded_def keyFor_inj)
  have 1: "read sampleJson 1 0 exampleDb = Inr exampleDb"
    using read_only [OF IntN_eval(1), of exampleDb sampleJson] g0 u0 by blast
  have 2: "read sampleJson 1 5 exampleDb = Inl (Panic ''account not found for key'')"
    using read_only [OF IntN_eval(2), of exampleDb sampleJson] g5 by blast
  show ?thesis by (intro conjI) (rule IntN_eval 1 2)+
qed

end
